theory Spec2Isabelle
  imports Main "HOL-Library.Word"
begin

unbundle bit_operations_syntax

section \<open>The NDN prefix hash table of ndn.c\<close>

subsection \<open>What ndn.h and city.h declare\<close>

text \<open>
  The header ndn.h and the CityHash library are not part of the sources at hand. Their
  numeric constants and the hash function are parameters of the model: every function
  below takes them in a record.
\<close>

record ndn_params =
  NDN_NUM_BKT :: int
  NDN_LOG_CAP :: int
  NDN_LOG_HEADROOM :: int
  NDN_MAX_URL_LENGTH :: int
  NDN_MAX_ETHPORTS :: int
  CityHash64 :: "8 word list \<Rightarrow> 64 word"

text \<open>
  Modelled from the spec: the macro \<open>NDN_NUM_BKT_\<close> of ndn.h, the bucket mask
  \<open>NUM_BUCKETS - 1\<close>. A name cannot end in an underscore here, hence the suffix.
\<close>

definition NDN_NUM_BKT_mask :: "ndn_params \<Rightarrow> int" where
  "NDN_NUM_BKT_mask P = NDN_NUM_BKT P - 1"

text \<open>
  Modelled from the spec: the macro NDN_SLOT_TO_OFFSET of ndn.h. A slot is a 64-bit value
  \<open>{ tag: u16, offset: u48 }\<close>, and line 129 puts the tag above bit 48: the offset is the
  low 48 bits.
\<close>

definition NDN_SLOT_TO_OFFSET :: "64 word \<Rightarrow> 64 word" where
  "NDN_SLOT_TO_OFFSET s = s AND mask 48"

text \<open>
  Modelled from the spec: the macro NDN_SLOT_TO_TAG of ndn.h, the 16 bits of a slot above
  its 48-bit offset.
\<close>

definition NDN_SLOT_TO_TAG :: "64 word \<Rightarrow> 64 word" where
  "NDN_SLOT_TO_TAG s = drop_bit 48 s"

subsection \<open>Data\<close>

text \<open>
  A bucket is \<open>struct ndn_bucket\<close> with its array of 8 slots of type ULL. The table is
  \<open>struct ndn_ht\<close>: the bucket array, the byte log and the log head. Both arrays are
  regions of memory addressed by a C int, so they are functions from int offsets: a read
  or write outside the region's size is a read or write of the memory next to it.
  \<open>log_head\<close> is an int; the invariant \<open>wf_ht\<close> below keeps it under 2^31, where no
  addition of the code wraps.
\<close>

record ndn_bucket =
  slot :: "int \<Rightarrow> 64 word"

record ndn_ht =
  ht_index :: "int \<Rightarrow> ndn_bucket"
  ht_log :: "int \<Rightarrow> 8 word"
  log_head :: int

datatype error = AssertFailed

subsection \<open>Conversions of C\<close>

text \<open>
  A URL is the buffer \<open>url\<close>, a list of bytes, with the length \<open>len\<close> that the caller
  passes: the key is the first \<open>len\<close> bytes. The code reads \<open>url[0]\<close> to \<open>url[len - 1]\<close>
  only, so the buffer holds at least \<open>len\<close> bytes in every call that C defines; the
  properties that depend on the bytes of the key state this (\<open>valid_key\<close>).
\<close>

text \<open>An unsigned 64-bit value assigned to an int keeps its low 32 bits, read signed.\<close>

definition int_of_ULL :: "64 word \<Rightarrow> int" where
  "int_of_ULL w = sint (ucast w :: 32 word)"

text \<open>An int converted to ULL: the value modulo 2^64.\<close>

definition ULL_of_int :: "int \<Rightarrow> 64 word" where
  "ULL_of_int n = word_of_int n"

text \<open>
  \<open>(uint16_t) url[len - 2]\<close>: the byte before the final '/', a (signed) char widened
  to 16 bits.
\<close>

definition url_tag :: "8 word list \<Rightarrow> int \<Rightarrow> 16 word" where
  "url_tag url len = scast (url ! nat (len - 2))"

text \<open>\<open>(char *) &tag\<close> with length 2: the two bytes of the tag, low byte first.\<close>

definition tag_bytes :: "16 word \<Rightarrow> 8 word list" where
  "tag_bytes tag = [ucast tag, ucast (drop_bit 8 tag)]"

text \<open>\<open>memcmp(url, &log[p], len) == 0\<close>\<close>

definition memcmp_log :: "8 word list \<Rightarrow> (int \<Rightarrow> 8 word) \<Rightarrow> int \<Rightarrow> int \<Rightarrow> bool" where
  "memcmp_log url lg p len = (map (\<lambda>k. lg (p + int k)) [0..<nat len] = take (nat len) url)"

text \<open>\<open>memcpy(&log[p], url, len)\<close>\<close>

definition memcpy_log :: "(int \<Rightarrow> 8 word) \<Rightarrow> int \<Rightarrow> 8 word list \<Rightarrow> int \<Rightarrow> (int \<Rightarrow> 8 word)" where
  "memcpy_log lg p url len = (\<lambda>a. if p \<le> a \<and> a < p + len then url ! nat (a - p) else lg a)"

subsection \<open>ndn\_contains\<close>

text \<open>The two candidate buckets, as lines 48 and 51 compute them.\<close>

definition contains_bkt_1 :: "ndn_params \<Rightarrow> 8 word list \<Rightarrow> int \<Rightarrow> int" where
  "contains_bkt_1 P url len =
     int_of_ULL (CityHash64 P (take (nat len) url) AND ULL_of_int (NDN_NUM_BKT_mask P))"

definition contains_bkt_2 :: "ndn_params \<Rightarrow> int \<Rightarrow> 16 word \<Rightarrow> int" where
  "contains_bkt_2 P bkt_1 tag =
     int_of_ULL ((ULL_of_int bkt_1 XOR CityHash64 P (tag_bytes tag)) AND ULL_of_int (NDN_NUM_BKT_mask P))"

text \<open>The test of lines 62 to 66 on one slot.\<close>

definition slot_matches :: "8 word list \<Rightarrow> int \<Rightarrow> 16 word \<Rightarrow> ndn_ht \<Rightarrow> 64 word \<Rightarrow> bool" where
  "slot_matches url len tag ht s =
     (let slot_offset = int_of_ULL (NDN_SLOT_TO_OFFSET s);
          slot_tag = (ucast (NDN_SLOT_TO_TAG s) :: 16 word)
      in slot_offset \<noteq> 0 \<and> slot_tag = tag \<and>
         ht_log ht slot_offset = (word_of_int len :: 8 word) \<and>
         memcmp_log url (ht_log ht) (slot_offset + 3) len)"

text \<open>Lines 69 to 72: the upgrade of the record at \<open>log_ptr\<close>.\<close>

definition upgrade :: "int \<Rightarrow> int \<Rightarrow> int \<Rightarrow> ndn_ht \<Rightarrow> ndn_ht" where
  "upgrade is_terminal dst_port_id log_ptr ht =
     (if ht_log ht (log_ptr + 1) = 0 \<and> is_terminal = 1
      then ht\<lparr>ht_log := (ht_log ht)(log_ptr + 1 := 1, log_ptr + 2 := word_of_int dst_port_id)\<rparr>
      else ht)"

text \<open>
  The inner loop of lines 57 to 77 over the slots of one bucket, from slot \<open>i\<close>:
  \<open>Some\<close> the table after the match (the function returns 1), \<open>None\<close> when the loop ends.
\<close>

function contains_slots ::
  "8 word list \<Rightarrow> int \<Rightarrow> int \<Rightarrow> int \<Rightarrow> 16 word \<Rightarrow> ndn_ht \<Rightarrow> int \<Rightarrow> int \<Rightarrow> ndn_ht option" where
  "contains_slots url len is_terminal dst_port_id tag ht bkt i =
     (if i < 8 then
        (let s = slot (ht_index ht bkt) i in
         if slot_matches url len tag ht s
         then Some (upgrade is_terminal dst_port_id (int_of_ULL (NDN_SLOT_TO_OFFSET s)) ht)
         else contains_slots url len is_terminal dst_port_id tag ht bkt (i + 1))
      else None)"
  by pat_completeness auto
termination
  by (relation "measure (\<lambda>(url, len, is_terminal, dst_port_id, tag, ht, bkt, i). nat (8 - i))") auto

declare contains_slots.simps [simp del]

text \<open>
  The outer loop runs twice: the first bucket, then the second. The result is the
  returned int and the table.
\<close>

definition ndn_contains ::
  "ndn_params \<Rightarrow> 8 word list \<Rightarrow> int \<Rightarrow> int \<Rightarrow> int \<Rightarrow> ndn_ht \<Rightarrow> error + (int \<times> ndn_ht)" where
  "ndn_contains P url len is_terminal dst_port_id ht =
     (if \<not> len \<ge> 2 then Inl AssertFailed
      else
        let tag = url_tag url len;
            bkt_1 = contains_bkt_1 P url len
        in case contains_slots url len is_terminal dst_port_id tag ht bkt_1 0 of
             Some ht' \<Rightarrow> Inr (1, ht')
           | None \<Rightarrow>
               let bkt_2 = contains_bkt_2 P bkt_1 tag
               in case contains_slots url len is_terminal dst_port_id tag ht bkt_2 0 of
                    Some ht' \<Rightarrow> Inr (1, ht')
                  | None \<Rightarrow> Inr (0, ht))"

subsection \<open>ndn\_ht\_insert\<close>

text \<open>The two candidate buckets, as lines 112 and 115 compute them.\<close>

definition insert_bkt_1 :: "ndn_params \<Rightarrow> 8 word list \<Rightarrow> int \<Rightarrow> int" where
  "insert_bkt_1 P url len =
     int_of_ULL (CityHash64 P (take (nat len) url) AND ULL_of_int (NDN_NUM_BKT_mask P))"

definition insert_bkt_2 :: "ndn_params \<Rightarrow> int \<Rightarrow> 16 word \<Rightarrow> int" where
  "insert_bkt_2 P bkt_1 tag =
     int_of_ULL ((ULL_of_int bkt_1 XOR CityHash64 P (tag_bytes tag)) AND ULL_of_int (NDN_NUM_BKT_mask P))"

text \<open>Lines 129 to 138: the slot is written, the log head moves, the record is written.\<close>

definition write_record ::
  "8 word list \<Rightarrow> int \<Rightarrow> int \<Rightarrow> int \<Rightarrow> 16 word \<Rightarrow> ndn_ht \<Rightarrow> int \<Rightarrow> int \<Rightarrow> ndn_ht" where
  "write_record url len is_terminal dst_port_id tag ht bkt i =
     (let insert_offset = log_head ht;
          b = ht_index ht bkt;
          b' = b\<lparr>slot := (slot b)(i := push_bit 48 (ucast tag :: 64 word) OR ULL_of_int insert_offset)\<rparr>
      in ht\<lparr>ht_index := (ht_index ht)(bkt := b'),
            log_head := log_head ht + (3 + len),
            ht_log := memcpy_log
              ((ht_log ht)(insert_offset := word_of_int len,
                           insert_offset + 1 := word_of_int is_terminal,
                           insert_offset + 2 := word_of_int dst_port_id))
              (insert_offset + 3) url len\<rparr>)"

text \<open>
  The inner loop of lines 120 to 142 from slot \<open>i\<close>: \<open>Some\<close> when an empty slot is found
  (the assertion of line 126 fails, or the record is written and the function returns 0),
  \<open>None\<close> when the loop ends.
\<close>

function insert_slots ::
  "ndn_params \<Rightarrow> 8 word list \<Rightarrow> int \<Rightarrow> int \<Rightarrow> int \<Rightarrow> 16 word \<Rightarrow> ndn_ht \<Rightarrow> int \<Rightarrow> int
     \<Rightarrow> (error + ndn_ht) option" where
  "insert_slots P url len is_terminal dst_port_id tag ht bkt i =
     (if i < 8 then
        (let slot_offset = int_of_ULL (NDN_SLOT_TO_OFFSET (slot (ht_index ht bkt) i)) in
         if slot_offset = 0 then
           (let insert_offset = log_head ht in
            if \<not> insert_offset + NDN_LOG_HEADROOM P < NDN_LOG_CAP P then Some (Inl AssertFailed)
            else Some (Inr (write_record url len is_terminal dst_port_id tag ht bkt i)))
         else insert_slots P url len is_terminal dst_port_id tag ht bkt (i + 1))
      else None)"
  by pat_completeness auto
termination
  by (relation "measure (\<lambda>(P, url, len, is_terminal, dst_port_id, tag, ht, bkt, i). nat (8 - i))") auto

declare insert_slots.simps [simp del]

definition ndn_ht_insert ::
  "ndn_params \<Rightarrow> 8 word list \<Rightarrow> int \<Rightarrow> int \<Rightarrow> int \<Rightarrow> ndn_ht \<Rightarrow> error + (int \<times> ndn_ht)" where
  "ndn_ht_insert P url len is_terminal dst_port_id ht =
     (if \<not> len \<ge> 2 then Inl AssertFailed
      else if \<not> (is_terminal = 0 \<or> is_terminal = 1) then Inl AssertFailed
      else if \<not> dst_port_id < NDN_MAX_ETHPORTS P then Inl AssertFailed
      else if \<not> len \<le> NDN_MAX_URL_LENGTH P then Inl AssertFailed
      else
        case ndn_contains P url len is_terminal dst_port_id ht of
          Inl e \<Rightarrow> Inl e
        | Inr (found, ht1) \<Rightarrow>
            if found \<noteq> 0 then Inr (0, ht1)
            else
              let tag = url_tag url len;
                  bkt_1 = insert_bkt_1 P url len
              in case insert_slots P url len is_terminal dst_port_id tag ht1 bkt_1 0 of
                   Some (Inl e) \<Rightarrow> Inl e
                 | Some (Inr ht') \<Rightarrow> Inr (0, ht')
                 | None \<Rightarrow>
                     let bkt_2 = insert_bkt_2 P bkt_1 tag
                     in case insert_slots P url len is_terminal dst_port_id tag ht1 bkt_2 0 of
                          Some (Inl e) \<Rightarrow> Inl e
                        | Some (Inr ht') \<Rightarrow> Inr (0, ht')
                        | None \<Rightarrow> Inr (- 1, ht1))"

subsection \<open>ndn\_init\<close>

text \<open>
  Lines 161 to 176: both regions are zeroed and the log head is set to 1. The shared
  memory calls are outside the model.
\<close>

definition ndn_init_ht :: ndn_ht where
  "ndn_init_ht = \<lparr>ht_index = (\<lambda>b. \<lparr>slot = (\<lambda>i. 0)\<rparr>), ht_log = (\<lambda>a. 0), log_head = 1\<rparr>"






section \<open>Notions for stating the properties\<close>

subsection \<open>Constants and arguments\<close>

text \<open>
  What the properties need of the constants of ndn.h: the bucket count and the log
  capacity fit an int, the headroom covers the largest record (3 bytes of metadata and
  the URL), and a URL length fits the length byte of a record.
\<close>

definition params_ok :: "ndn_params \<Rightarrow> bool" where
  "params_ok P \<longleftrightarrow>
     1 \<le> NDN_NUM_BKT P \<and> NDN_NUM_BKT P \<le> 2 ^ 31 \<and>
     1 \<le> NDN_LOG_CAP P \<and> NDN_LOG_CAP P < 2 ^ 31 \<and>
     NDN_MAX_URL_LENGTH P + 3 \<le> NDN_LOG_HEADROOM P \<and>
     NDN_MAX_URL_LENGTH P \<le> 255"

text \<open>A key of valid length held in a buffer of at least that many bytes.\<close>

definition valid_key :: "ndn_params \<Rightarrow> 8 word list \<Rightarrow> int \<Rightarrow> bool" where
  "valid_key P url len \<longleftrightarrow> 2 \<le> len \<and> len \<le> NDN_MAX_URL_LENGTH P \<and> nat len \<le> length url"

text \<open>The arguments that pass the assertions of lines 89 to 93.\<close>

definition valid_args :: "ndn_params \<Rightarrow> int \<Rightarrow> int \<Rightarrow> int \<Rightarrow> bool" where
  "valid_args P len is_terminal dst_port_id \<longleftrightarrow>
     2 \<le> len \<and> (is_terminal = 0 \<or> is_terminal = 1) \<and>
     dst_port_id < NDN_MAX_ETHPORTS P \<and> len \<le> NDN_MAX_URL_LENGTH P"

subsection \<open>The scans as searches\<close>

text \<open>The int that both scans read from a slot as its log offset.\<close>

definition slot_offset_of :: "ndn_ht \<Rightarrow> int \<Rightarrow> int \<Rightarrow> int" where
  "slot_offset_of ht bkt i = int_of_ULL (NDN_SLOT_TO_OFFSET (slot (ht_index ht bkt) i))"

text \<open>The first slot of a bucket that the lookup accepts.\<close>

definition first_match :: "8 word list \<Rightarrow> int \<Rightarrow> 16 word \<Rightarrow> ndn_ht \<Rightarrow> int \<Rightarrow> int option" where
  "first_match url len tag ht bkt =
     find (\<lambda>i. slot_matches url len tag ht (slot (ht_index ht bkt) i)) [0..7]"

text \<open>The log offset of the record that a lookup of the key finds, if any.\<close>

definition lookup_ptr :: "ndn_params \<Rightarrow> 8 word list \<Rightarrow> int \<Rightarrow> ndn_ht \<Rightarrow> int option" where
  "lookup_ptr P url len ht =
     (let tag = url_tag url len; bkt_1 = contains_bkt_1 P url len
      in case first_match url len tag ht bkt_1 of
           Some i \<Rightarrow> Some (slot_offset_of ht bkt_1 i)
         | None \<Rightarrow>
             (let bkt_2 = contains_bkt_2 P bkt_1 tag
              in case first_match url len tag ht bkt_2 of
                   Some i \<Rightarrow> Some (slot_offset_of ht bkt_2 i)
                 | None \<Rightarrow> None))"

text \<open>The first slot of a bucket that the insertion takes as empty.\<close>

definition first_empty :: "ndn_ht \<Rightarrow> int \<Rightarrow> int option" where
  "first_empty ht bkt = find (\<lambda>i. slot_offset_of ht bkt i = 0) [0..7]"

text \<open>The bucket and slot where an insertion of the key puts a new record, if any.\<close>

definition insert_place :: "ndn_params \<Rightarrow> 8 word list \<Rightarrow> int \<Rightarrow> ndn_ht \<Rightarrow> (int \<times> int) option" where
  "insert_place P url len ht =
     (let bkt_1 = insert_bkt_1 P url len
      in case first_empty ht bkt_1 of
           Some i \<Rightarrow> Some (bkt_1, i)
         | None \<Rightarrow>
             (let bkt_2 = insert_bkt_2 P bkt_1 (url_tag url len)
              in case first_empty ht bkt_2 of
                   Some i \<Rightarrow> Some (bkt_2, i)
                 | None \<Rightarrow> None))"

subsection \<open>Well-formed tables\<close>

text \<open>The 48-bit offset field of a slot, and the end of the record that starts at \<open>p\<close>.\<close>

definition slot_field :: "ndn_ht \<Rightarrow> int \<Rightarrow> int \<Rightarrow> int" where
  "slot_field ht b i = uint (NDN_SLOT_TO_OFFSET (slot (ht_index ht b) i))"

definition rec_end :: "ndn_ht \<Rightarrow> int \<Rightarrow> int" where
  "rec_end ht p = p + 3 + uint (ht_log ht p)"

text \<open>
  The invariant of the table: the log head lies in \<open>[1, NDN_LOG_CAP]\<close>; a slot with a nonzero
  offset field points to a record that ends at or before the log head; the records of two
  slots are the same record or do not overlap.
\<close>

definition wf_ht :: "ndn_params \<Rightarrow> ndn_ht \<Rightarrow> bool" where
  "wf_ht P ht \<longleftrightarrow>
     1 \<le> log_head ht \<and> log_head ht \<le> NDN_LOG_CAP P \<and>
     (\<forall>b\<in>{0..<NDN_NUM_BKT P}. \<forall>i\<in>{0..<8}.
        slot_field ht b i \<noteq> 0 \<longrightarrow>
          rec_end ht (slot_field ht b i) \<le> log_head ht \<and>
          (\<forall>b'\<in>{0..<NDN_NUM_BKT P}. \<forall>i'\<in>{0..<8}.
             slot_field ht b' i' \<noteq> 0 \<and> slot_field ht b' i' \<noteq> slot_field ht b i \<longrightarrow>
               rec_end ht (slot_field ht b i) \<le> slot_field ht b' i' \<or>
               rec_end ht (slot_field ht b' i') \<le> slot_field ht b i))"

text \<open>A log offset that some slot of the table holds.\<close>

definition occupied :: "ndn_params \<Rightarrow> ndn_ht \<Rightarrow> int \<Rightarrow> bool" where
  "occupied P ht p \<longleftrightarrow>
     p \<noteq> 0 \<and> (\<exists>b\<in>{0..<NDN_NUM_BKT P}. \<exists>i\<in>{0..<8}. slot_field ht b i = p)"

subsection \<open>Sequences of calls\<close>

datatype ndn_call =
  Contains "8 word list" int int int
| Insert "8 word list" int int int

fun run_call :: "ndn_params \<Rightarrow> ndn_call \<Rightarrow> ndn_ht \<Rightarrow> error + (int \<times> ndn_ht)" where
  "run_call P (Contains url len is_terminal dst_port_id) ht =
     ndn_contains P url len is_terminal dst_port_id ht"
| "run_call P (Insert url len is_terminal dst_port_id) ht =
     ndn_ht_insert P url len is_terminal dst_port_id ht"

text \<open>The calls one after the other on the same table, as long as none aborts.\<close>

fun run_calls :: "ndn_params \<Rightarrow> ndn_call list \<Rightarrow> ndn_ht \<Rightarrow> error + ndn_ht" where
  "run_calls P [] ht = Inr ht"
| "run_calls P (c # cs) ht =
     (case run_call P c ht of Inl e \<Rightarrow> Inl e | Inr (r, ht') \<Rightarrow> run_calls P cs ht')"

subsection \<open>The candidate buckets of a key\<close>

definition candidates :: "ndn_params \<Rightarrow> 8 word list \<Rightarrow> int \<Rightarrow> int set" where
  "candidates P url len =
     {contains_bkt_1 P url len, contains_bkt_2 P (contains_bkt_1 P url len) (url_tag url len)}"

subsection \<open>A concrete instance\<close>

text \<open>
  The scenario of the spec's section 8, with 16 buckets and a log of 4096 bytes. The other
  constants and a small stand-in for CityHash64 are chosen here, to evaluate the functions
  on concrete tables.
\<close>

definition scenario_hash :: "8 word list \<Rightarrow> 64 word" where
  "scenario_hash bs = foldl (\<lambda>h b. h * 31 + ucast b) 7 bs"

definition scenario :: ndn_params where
  "scenario = \<lparr>NDN_NUM_BKT = 16, NDN_LOG_CAP = 4096, NDN_LOG_HEADROOM = 64,
     NDN_MAX_URL_LENGTH = 32, NDN_MAX_ETHPORTS = 16, CityHash64 = scenario_hash\<rparr>"

text \<open>The fresh table after the insertion of "a/" (not terminal), and then of "a/b/" (terminal, port 3).\<close>

definition ht_a :: ndn_ht where
  "ht_a = write_record [97, 47] 2 0 (- 1) 97 ndn_init_ht 5 0"

definition ht_ab :: ndn_ht where
  "ht_ab = write_record [97, 47, 98, 47] 4 1 3 98 ht_a 2 0"

text \<open>A log too small for a second record: the capacity is 70 bytes.\<close>

definition small_log :: ndn_params where
  "small_log = scenario\<lparr>NDN_LOG_CAP := 70\<rparr>"

text \<open>
  A table of one bucket, so that both candidate buckets of every key are bucket 0, filled by
  the insertion of the eight keys "a/" to "h/".
\<close>

definition one_bucket :: ndn_params where
  "one_bucket = scenario\<lparr>NDN_NUM_BKT := 1\<rparr>"

definition eight_keys :: "ndn_call list" where
  "eight_keys = map (\<lambda>c. Insert [c, 47] 2 0 (- 1)) [97, 98, 99, 100, 101, 102, 103, 104]"

definition full_ht :: ndn_ht where
  "full_ht = projr (run_calls one_bucket eight_keys ndn_init_ht)"

subsection \<open>The bucket derivation in the words of the spec\<close>

text \<open>
  Section 4.2 of the spec: the primary bucket is \<open>hash64(key) & (NUM_BUCKETS - 1)\<close>, the
  secondary bucket is \<open>(primary_index XOR hash64(tag_bytes)) & (NUM_BUCKETS - 1)\<close>, and the
  tag is the 16-bit value of the single byte before the terminator (widened as C widens
  a char).
\<close>

definition spec_tag :: "8 word list \<Rightarrow> 16 word" where
  "spec_tag key = scast (key ! (length key - 2))"

definition spec_primary_bucket :: "ndn_params \<Rightarrow> 8 word list \<Rightarrow> 64 word" where
  "spec_primary_bucket P key = CityHash64 P key AND word_of_int (NDN_NUM_BKT P - 1)"

definition spec_secondary_bucket :: "ndn_params \<Rightarrow> 64 word \<Rightarrow> 16 word \<Rightarrow> 64 word" where
  "spec_secondary_bucket P primary_index tag =
     (primary_index XOR CityHash64 P (tag_bytes tag)) AND word_of_int (NDN_NUM_BKT P - 1)"

subsection \<open>Loading one name\<close>





text \<open>The \<open>n\<close> bytes of the log from offset \<open>p\<close>.\<close>

definition log_bytes :: "ndn_ht \<Rightarrow> int \<Rightarrow> nat \<Rightarrow> 8 word list" where
  "log_bytes ht p n = map (\<lambda>k. ht_log ht (p + int k)) [0..<n]"

text \<open>The length argument of a call, and the record that an insertion with its arguments writes.\<close>

fun call_len :: "ndn_call \<Rightarrow> int" where
  "call_len (Contains url len is_terminal dst_port_id) = len"
| "call_len (Insert url len is_terminal dst_port_id) = len"

fun call_record :: "ndn_call \<Rightarrow> 8 word list" where
  "call_record (Contains url len is_terminal dst_port_id) = []"
| "call_record (Insert url len is_terminal dst_port_id) =
     word_of_int len # word_of_int is_terminal # word_of_int dst_port_id # take (nat len) url"

text \<open>An insertion whose buffer is exactly the key.\<close>

fun key_insert :: "ndn_call \<Rightarrow> bool" where
  "key_insert (Contains url len is_terminal dst_port_id) = False"
| "key_insert (Insert url len is_terminal dst_port_id) = (length url = nat len)"



section \<open>The loops as searches\<close>

lemma contains_slots_find:
  "contains_slots url len is_terminal dst_port_id tag ht bkt i =
     map_option (\<lambda>j. upgrade is_terminal dst_port_id (slot_offset_of ht bkt j) ht)
       (find (\<lambda>j. slot_matches url len tag ht (slot (ht_index ht bkt) j)) [i..7])"
proof (induction url len is_terminal dst_port_id tag ht bkt i rule: contains_slots.induct)
  case (1 url len is_terminal dst_port_id tag ht bkt i)
  show ?case
  proof (cases "i < 8")
    case True
    then have u: "[i..7] = i # [i + 1..7]" by (simp add: upto_rec1)
    show ?thesis
      using True "1.IH"
      by (subst contains_slots.simps) (simp add: u slot_offset_of_def Let_def)
  next
    case False
    then have "[i..7] = []" by simp
    with False show ?thesis by (subst contains_slots.simps) simp
  qed
qed

lemma insert_slots_find:
  "insert_slots P url len is_terminal dst_port_id tag ht bkt i =
     map_option (\<lambda>j. if log_head ht + NDN_LOG_HEADROOM P < NDN_LOG_CAP P
                      then Inr (write_record url len is_terminal dst_port_id tag ht bkt j)
                      else Inl AssertFailed)
       (find (\<lambda>j. slot_offset_of ht bkt j = 0) [i..7])"
proof (induction P url len is_terminal dst_port_id tag ht bkt i rule: insert_slots.induct)
  case (1 P url len is_terminal dst_port_id tag ht bkt i)
  show ?case
  proof (cases "i < 8")
    case True
    then have u: "[i..7] = i # [i + 1..7]" by (simp add: upto_rec1)
    show ?thesis
      using True "1.IH"
      by (subst insert_slots.simps) (simp add: u slot_offset_of_def Let_def)
  next
    case False
    then have "[i..7] = []" by simp
    with False show ?thesis by (subst insert_slots.simps) simp
  qed
qed

lemma ndn_contains_eq:
  "ndn_contains P url len is_terminal dst_port_id ht =
     (if len < 2 then Inl AssertFailed
      else case lookup_ptr P url len ht of
             Some p \<Rightarrow> Inr (1, upgrade is_terminal dst_port_id p ht)
           | None \<Rightarrow> Inr (0, ht))"
  by (simp add: ndn_contains_def lookup_ptr_def first_match_def contains_slots_find Let_def
      split: option.splits)

lemma ndn_ht_insert_eq:
  "ndn_ht_insert P url len is_terminal dst_port_id ht =
     (if \<not> valid_args P len is_terminal dst_port_id then Inl AssertFailed
      else case lookup_ptr P url len ht of
             Some p \<Rightarrow> Inr (0, upgrade is_terminal dst_port_id p ht)
           | None \<Rightarrow>
               (case insert_place P url len ht of
                  Some (b, i) \<Rightarrow>
                    if log_head ht + NDN_LOG_HEADROOM P < NDN_LOG_CAP P
                    then Inr (0, write_record url len is_terminal dst_port_id (url_tag url len) ht b i)
                    else Inl AssertFailed
                | None \<Rightarrow> Inr (- 1, ht)))"
proof (cases "valid_args P len is_terminal dst_port_id")
  case False
  then show ?thesis by (auto simp: ndn_ht_insert_def valid_args_def)
next
  case True
  then have v: "2 \<le> len" "is_terminal = 0 \<or> is_terminal = 1"
    "dst_port_id < NDN_MAX_ETHPORTS P" "len \<le> NDN_MAX_URL_LENGTH P"
    by (auto simp: valid_args_def)
  show ?thesis
  proof (cases "lookup_ptr P url len ht")
    case (Some p)
    with True v show ?thesis by (simp add: ndn_ht_insert_def ndn_contains_eq)
  next
    case None
    with True v show ?thesis
      by (auto simp add: ndn_ht_insert_def ndn_contains_eq insert_place_def first_empty_def
          insert_slots_find Let_def split: option.splits)
  qed
qed

section \<open>Words, slots and buckets\<close>

lemma int_of_ULL_small: "uint w < 2 ^ 31 \<Longrightarrow> int_of_ULL w = uint w"
proof -
  assume a: "uint w < 2 ^ 31"
  have nn: "- (2 ^ 31) \<le> uint w" by (rule order_trans [of _ 0]) simp_all
  have "uint (ucast w :: 32 word) = take_bit 32 (uint w)"
    by (simp add: unsigned_ucast_eq)
  also have "\<dots> = uint w"
    using a by (simp add: take_bit_int_eq_self)
  finally have u: "uint (ucast w :: 32 word) = uint w" .
  have "sint (ucast w :: 32 word) = signed_take_bit 31 (uint (ucast w :: 32 word))"
    by (simp add: sint_uint)
  also have "\<dots> = uint w"
    unfolding u by (rule signed_take_bit_int_eq_self [OF nn a])
  finally show ?thesis by (simp add: int_of_ULL_def)
qed

lemma bit_small_int:
  assumes "0 \<le> p" "p < 2 ^ m" "bit (p::int) n"
  shows "n < m"
proof -
  have "take_bit m p = p" using assms by (simp add: take_bit_int_eq_self)
  then have "bit (take_bit m p) n" using assms by simp
  then show ?thesis by (simp add: bit_take_bit_iff)
qed

lemma offset_pack:
  assumes "0 \<le> p" "p < 2 ^ 48"
  shows "NDN_SLOT_TO_OFFSET (push_bit 48 (ucast (tag :: 16 word) :: 64 word) OR ULL_of_int p) = word_of_int p"
  unfolding NDN_SLOT_TO_OFFSET_def ULL_of_int_def
  apply (rule bit_word_eqI)
  using bit_small_int [OF assms]
  apply (auto simp add: bit_simps)
  done

lemma tag_pack:
  assumes "0 \<le> p" "p < 2 ^ 48"
  shows "ucast (NDN_SLOT_TO_TAG (push_bit 48 (ucast (tag :: 16 word) :: 64 word) OR ULL_of_int p)) = tag"
  unfolding NDN_SLOT_TO_TAG_def ULL_of_int_def
  apply (rule bit_word_eqI)
  using bit_small_int [OF assms]
  apply (auto simp add: bit_simps)
  done

lemma uint_word_of_int_small:
  assumes "0 \<le> p" "p < 2 ^ 64"
  shows "uint (word_of_int p :: 64 word) = p"
proof -
  have "uint (word_of_int p :: 64 word) = p mod 2 ^ LENGTH(64)" by (rule uint_word_of_int)
  then show ?thesis using assms by simp
qed

lemma uint_and_mask_less:
  assumes "1 \<le> N" "N \<le> 2 ^ 31"
  shows "uint ((x::64 word) AND ULL_of_int (N - 1)) < N"
proof -
  have "x AND ULL_of_int (N - 1) \<le> ULL_of_int (N - 1)"
    by (rule word_and_le1)
  then have "uint (x AND ULL_of_int (N - 1)) \<le> uint (ULL_of_int (N - 1))"
    by (simp add: word_le_def)
  also have "\<dots> = N - 1"
    unfolding ULL_of_int_def using assms by (intro uint_word_of_int_small) auto
  finally show ?thesis by simp
qed

lemma masked_bucket:
  assumes "params_ok P"
  shows "int_of_ULL (x AND ULL_of_int (NDN_NUM_BKT_mask P)) = uint (x AND ULL_of_int (NDN_NUM_BKT_mask P))"
    and "int_of_ULL (x AND ULL_of_int (NDN_NUM_BKT_mask P)) \<in> {0..<NDN_NUM_BKT P}"
proof -
  let ?w = "x AND ULL_of_int (NDN_NUM_BKT_mask P)"
  have N: "1 \<le> NDN_NUM_BKT P" "NDN_NUM_BKT P \<le> 2 ^ 31"
    using assms by (auto simp: params_ok_def)
  have lt: "uint ?w < NDN_NUM_BKT P"
    unfolding NDN_NUM_BKT_mask_def by (rule uint_and_mask_less [OF N])
  then have "uint ?w < 2 ^ 31" using N by linarith
  then show eq: "int_of_ULL ?w = uint ?w" by (rule int_of_ULL_small)
  show "int_of_ULL ?w \<in> {0..<NDN_NUM_BKT P}" using lt by (simp add: eq)
qed

lemma contains_bkt_1_range: "params_ok P \<Longrightarrow> contains_bkt_1 P url len \<in> {0..<NDN_NUM_BKT P}"
  unfolding contains_bkt_1_def by (rule masked_bucket)

lemma contains_bkt_2_range: "params_ok P \<Longrightarrow> contains_bkt_2 P b tag \<in> {0..<NDN_NUM_BKT P}"
  unfolding contains_bkt_2_def by (rule masked_bucket)

lemma insert_bkt_1_eq: "insert_bkt_1 P url len = contains_bkt_1 P url len"
  by (simp add: insert_bkt_1_def contains_bkt_1_def)

lemma insert_bkt_2_eq: "insert_bkt_2 P b tag = contains_bkt_2 P b tag"
  by (simp add: insert_bkt_2_def contains_bkt_2_def)

lemma rec_end_ge: "p + 3 \<le> rec_end ht p"
  by (simp add: rec_end_def)

lemma slot_field_nonneg: "0 \<le> slot_field ht b i"
  by (simp add: slot_field_def)

lemma occupiedI:
  "b \<in> {0..<NDN_NUM_BKT P} \<Longrightarrow> i \<in> {0..<8} \<Longrightarrow> slot_field ht b i \<noteq> 0
     \<Longrightarrow> occupied P ht (slot_field ht b i)"
  unfolding occupied_def by blast

lemma occupied_pos: "occupied P ht p \<Longrightarrow> 1 \<le> p"
  using slot_field_nonneg unfolding occupied_def by (metis linorder_not_less order_antisym_conv zless_imp_add1_zle zero_less_one add_0 not_le)

lemma wf_ht_occ:
  "wf_ht P ht \<longleftrightarrow>
     1 \<le> log_head ht \<and> log_head ht \<le> NDN_LOG_CAP P \<and>
     (\<forall>p. occupied P ht p \<longrightarrow> rec_end ht p \<le> log_head ht) \<and>
     (\<forall>p q. occupied P ht p \<and> occupied P ht q \<and> p \<noteq> q \<longrightarrow> rec_end ht p \<le> q \<or> rec_end ht q \<le> p)"
  unfolding wf_ht_def occupied_def
  apply (intro iffI conjI)
  apply blast
  apply blast
  apply metis
  apply metis
  apply blast
  apply blast
  apply (intro ballI impI conjI)
  apply metis
  apply metis
  done

section \<open>The invariant under an upgrade\<close>

lemma slot_offset_of_field:
  assumes "params_ok P" "wf_ht P ht" "b \<in> {0..<NDN_NUM_BKT P}" "i \<in> {0..<8}"
  shows "slot_offset_of ht b i = slot_field ht b i"
proof -
  have "slot_field ht b i < 2 ^ 31"
  proof (cases "slot_field ht b i = 0")
    case True
    then show ?thesis by simp
  next
    case False
    then have "occupied P ht (slot_field ht b i)" using assms(3,4) by (rule occupiedI [rotated 2])
    then have "rec_end ht (slot_field ht b i) \<le> log_head ht"
      using assms(2) by (simp add: wf_ht_occ)
    moreover have "log_head ht \<le> NDN_LOG_CAP P" using assms(2) by (simp add: wf_ht_occ)
    moreover have "NDN_LOG_CAP P < 2 ^ 31" using assms(1) by (simp add: params_ok_def)
    ultimately show ?thesis using rec_end_ge [of "slot_field ht b i" ht] by linarith
  qed
  then show ?thesis
    unfolding slot_offset_of_def slot_field_def by (rule int_of_ULL_small)
qed

lemma upgrade_index [simp]: "ht_index (upgrade t d p ht) = ht_index ht"
  by (simp add: upgrade_def)

lemma upgrade_log_head [simp]: "log_head (upgrade t d p ht) = log_head ht"
  by (simp add: upgrade_def)

lemma upgrade_log_other:
  "a \<noteq> p + 1 \<Longrightarrow> a \<noteq> p + 2 \<Longrightarrow> ht_log (upgrade t d p ht) a = ht_log ht a"
  by (simp add: upgrade_def)

lemma upgrade_slot_field [simp]: "slot_field (upgrade t d p ht) b i = slot_field ht b i"
  by (simp add: slot_field_def)

lemma upgrade_occupied [simp]: "occupied P (upgrade t d p ht) q = occupied P ht q"
  by (simp add: occupied_def)

text \<open>Two occupied offsets: the metadata bytes of one are not bytes that the other's slot reads.\<close>

lemma occupied_apart:
  assumes "wf_ht P ht" "occupied P ht p" "occupied P ht q"
  shows "q \<noteq> p + 1" "q \<noteq> p + 2"
    and "\<And>a. q + 3 \<le> a \<Longrightarrow> a < rec_end ht q \<Longrightarrow> a \<noteq> p + 1 \<and> a \<noteq> p + 2"
proof -
  have d: "p = q \<or> rec_end ht p \<le> q \<or> rec_end ht q \<le> p"
    using assms by (auto simp: wf_ht_occ)
  have ge: "p + 3 \<le> rec_end ht p" "q + 3 \<le> rec_end ht q" by (rule rec_end_ge)+
  show "q \<noteq> p + 1" "q \<noteq> p + 2" using d ge by linarith+
  fix a assume "q + 3 \<le> a" "a < rec_end ht q"
  then show "a \<noteq> p + 1 \<and> a \<noteq> p + 2" using d ge by linarith
qed

lemma upgrade_rec_end:
  assumes "wf_ht P ht" "occupied P ht p" "occupied P ht q"
  shows "rec_end (upgrade t d p ht) q = rec_end ht q"
  using occupied_apart(1,2) [OF assms] by (simp add: rec_end_def upgrade_log_other)

lemma wf_upgrade:
  assumes "wf_ht P ht" "occupied P ht p"
  shows "wf_ht P (upgrade t d p ht)"
  using assms unfolding wf_ht_occ [of P "upgrade t d p ht"]
  by (simp add: upgrade_rec_end [OF assms]) (simp add: wf_ht_occ)

section \<open>The invariant under an insertion\<close>

lemma write_record_log_head [simp]:
  "log_head (write_record url len t d tag ht bkt i) = log_head ht + (3 + len)"
  by (simp add: write_record_def Let_def)

lemma write_record_slot:
  "slot (ht_index (write_record url len t d tag ht bkt i) b) j =
     (if b = bkt \<and> j = i then push_bit 48 (ucast tag) OR ULL_of_int (log_head ht)
      else slot (ht_index ht b) j)"
  by (simp add: write_record_def Let_def)

lemma write_record_log:
  "ht_log (write_record url len t d tag ht bkt i) a =
     (if log_head ht + 3 \<le> a \<and> a < log_head ht + 3 + len then url ! nat (a - (log_head ht + 3))
      else if a = log_head ht + 2 then word_of_int d
      else if a = log_head ht + 1 then word_of_int t
      else if a = log_head ht then word_of_int len
      else ht_log ht a)"
  by (simp add: write_record_def Let_def memcpy_log_def)

lemma write_record_log_outside:
  "a < log_head ht \<or> log_head ht + 3 + len \<le> a \<Longrightarrow> 0 \<le> len
     \<Longrightarrow> ht_log (write_record url len t d tag ht bkt i) a = ht_log ht a"
  by (auto simp add: write_record_log)

lemma write_record_slot_field:
  assumes "0 \<le> log_head ht" "log_head ht < 2 ^ 48"
  shows "slot_field (write_record url len t d tag ht bkt i) b j =
     (if b = bkt \<and> j = i then log_head ht else slot_field ht b j)"
proof -
  have "uint (word_of_int (log_head ht) :: 64 word) = log_head ht"
    using assms by (intro uint_word_of_int_small) auto
  then show ?thesis
    by (simp add: slot_field_def write_record_slot offset_pack [OF assms])
qed

lemma uint_len_byte: "0 \<le> len \<Longrightarrow> len \<le> 255 \<Longrightarrow> uint (word_of_int len :: 8 word) = len"
proof -
  assume a: "0 \<le> len" "len \<le> 255"
  have "uint (word_of_int len :: 8 word) = len mod 2 ^ LENGTH(8)" by (rule uint_word_of_int)
  then show ?thesis using a by simp
qed

lemma wf_write_record:
  assumes P: "params_ok P" and wf: "wf_ht P ht"
    and b: "bkt \<in> {0..<NDN_NUM_BKT P}" and i: "i \<in> {0..<8}"
    and empty: "slot_field ht bkt i = 0"
    and len: "0 \<le> len" "len \<le> NDN_MAX_URL_LENGTH P"
    and room: "log_head ht + NDN_LOG_HEADROOM P < NDN_LOG_CAP P"
  shows "wf_ht P (write_record url len t d tag ht bkt i)"
proof -
  let ?ht = "write_record url len t d tag ht bkt i"
  have lh: "1 \<le> log_head ht" "log_head ht \<le> NDN_LOG_CAP P" using wf by (auto simp: wf_ht_occ)
  have cap: "NDN_LOG_CAP P < 2 ^ 31" "NDN_MAX_URL_LENGTH P + 3 \<le> NDN_LOG_HEADROOM P"
    "NDN_MAX_URL_LENGTH P \<le> 255"
    using P by (auto simp: params_ok_def)
  have lh48: "0 \<le> log_head ht" "log_head ht < 2 ^ 48" using lh cap by auto
  note sf = write_record_slot_field [OF lh48]
  have occ: "occupied P ?ht q \<longleftrightarrow> q = log_head ht \<or> occupied P ht q" for q
  proof
    assume "occupied P ?ht q"
    then show "q = log_head ht \<or> occupied P ht q"
      unfolding occupied_def sf by (metis (full_types))
  next
    assume "q = log_head ht \<or> occupied P ht q"
    then show "occupied P ?ht q"
    proof
      assume "q = log_head ht"
      then show ?thesis unfolding occupied_def sf using b i lh by force
    next
      assume "occupied P ht q"
      then obtain b' i' where o: "q \<noteq> 0" "b' \<in> {0..<NDN_NUM_BKT P}" "i' \<in> {0..<8}"
        "slot_field ht b' i' = q"
        unfolding occupied_def by blast
      then have "\<not> (b' = bkt \<and> i' = i)" using empty by auto
      then have "slot_field ?ht b' i' = q" using o by (auto simp add: sf)
      then show ?thesis unfolding occupied_def using o by blast
    qed
  qed
  have old_end: "rec_end ht q \<le> log_head ht" if "occupied P ht q" for q
    using wf that by (simp add: wf_ht_occ)
  have re_old: "rec_end ?ht q = rec_end ht q" if "occupied P ht q" for q
  proof -
    have "q < log_head ht" using old_end [OF that] rec_end_ge [of q ht] by linarith
    then show ?thesis using len by (simp add: rec_end_def write_record_log_outside)
  qed
  have re_new: "rec_end ?ht (log_head ht) = log_head ht + 3 + len"
    using len cap by (simp add: rec_end_def write_record_log uint_len_byte)
  have not_old: "\<not> occupied P ht (log_head ht)"
    using old_end [of "log_head ht"] rec_end_ge [of "log_head ht" ht] by auto
  show ?thesis
    unfolding wf_ht_occ [of P ?ht]
  proof (intro conjI allI impI)
    show "1 \<le> log_head ?ht" using lh len by simp
    show "log_head ?ht \<le> NDN_LOG_CAP P" using room len cap by simp
  next
    fix p assume "occupied P ?ht p"
    then show "rec_end ?ht p \<le> log_head ?ht"
      using re_old [of p] re_new old_end [of p] len by (auto simp: occ)
  next
    fix p q assume a: "occupied P ?ht p \<and> occupied P ?ht q \<and> p \<noteq> q"
    have dis: "rec_end ht p \<le> q \<or> rec_end ht q \<le> p" if "occupied P ht p" "occupied P ht q"
      using wf that a by (simp add: wf_ht_occ)
    from a consider "p = log_head ht" "occupied P ht q" | "q = log_head ht" "occupied P ht p"
      | "occupied P ht p" "occupied P ht q"
      by (auto simp: occ)
    then show "rec_end ?ht p \<le> q \<or> rec_end ?ht q \<le> p"
    proof cases
      case 1
      then show ?thesis using re_old [of q] old_end [of q] by simp
    next
      case 2
      then show ?thesis using re_old [of p] old_end [of p] by simp
    next
      case 3
      then show ?thesis using re_old [of p] re_old [of q] dis by simp
    qed
  qed
qed

section \<open>What a lookup finds is a record of the table\<close>

lemma find_Some_holds: "find Q xs = Some x \<Longrightarrow> Q x \<and> x \<in> set xs"
  by (induction xs) (auto split: if_splits)

lemma slots_set: "set [0..7] = {0..<8::int}"
  by auto

lemma first_match_Some:
  "first_match url len tag ht b = Some i \<Longrightarrow>
     i \<in> {0..<8} \<and> slot_matches url len tag ht (slot (ht_index ht b) i)"
  unfolding first_match_def using find_Some_holds [of _ "[0..7]" i] slots_set by blast

lemma first_match_None:
  "first_match url len tag ht b = None \<longleftrightarrow>
     (\<forall>i\<in>{0..<8}. \<not> slot_matches url len tag ht (slot (ht_index ht b) i))"
  unfolding first_match_def find_None_iff slots_set by blast

lemma first_empty_Some:
  "first_empty ht b = Some i \<Longrightarrow> i \<in> {0..<8} \<and> slot_offset_of ht b i = 0"
  unfolding first_empty_def using find_Some_holds [of _ "[0..7]" i] slots_set by blast


lemma candidates_range: "params_ok P \<Longrightarrow> b \<in> candidates P url len \<Longrightarrow> b \<in> {0..<NDN_NUM_BKT P}"
  unfolding candidates_def using contains_bkt_1_range contains_bkt_2_range by blast

lemma lookup_ptr_Some:
  assumes "lookup_ptr P url len ht = Some p"
  shows "\<exists>b\<in>candidates P url len. \<exists>i\<in>{0..<8}.
           slot_matches url len (url_tag url len) ht (slot (ht_index ht b) i) \<and>
           p = slot_offset_of ht b i"
  using assms unfolding lookup_ptr_def candidates_def Let_def
  by (auto split: option.splits dest!: first_match_Some)

lemma lookup_ptr_None:
  "lookup_ptr P url len ht = None \<longleftrightarrow>
     (\<forall>b\<in>candidates P url len. \<forall>i\<in>{0..<8}.
        \<not> slot_matches url len (url_tag url len) ht (slot (ht_index ht b) i))"
  unfolding lookup_ptr_def candidates_def Let_def
  by (auto simp: first_match_None split: option.splits dest: first_match_Some)

lemma insert_place_Some:
  assumes "insert_place P url len ht = Some (b, i)"
  shows "b \<in> candidates P url len \<and> i \<in> {0..<8} \<and> slot_offset_of ht b i = 0"
  using assms unfolding insert_place_def candidates_def Let_def insert_bkt_1_eq insert_bkt_2_eq
  by (auto split: option.splits dest!: first_empty_Some)


lemma slot_matches_offset:
  "slot_matches url len tag ht (slot (ht_index ht b) i) \<Longrightarrow> slot_offset_of ht b i \<noteq> 0"
  by (simp add: slot_matches_def slot_offset_of_def Let_def)

lemma lookup_ptr_occupied:
  assumes "params_ok P" "wf_ht P ht" "lookup_ptr P url len ht = Some p"
  shows "occupied P ht p"
proof -
  from lookup_ptr_Some [OF assms(3)] obtain b i where
    bi: "b \<in> candidates P url len" "i \<in> {0..<8}"
      "slot_matches url len (url_tag url len) ht (slot (ht_index ht b) i)" "p = slot_offset_of ht b i"
    by blast
  have r: "b \<in> {0..<NDN_NUM_BKT P}" using assms(1) bi(1) by (rule candidates_range)
  have eq: "slot_offset_of ht b i = slot_field ht b i"
    using assms(1,2) r bi(2) by (rule slot_offset_of_field)
  have "slot_field ht b i \<noteq> 0" using slot_matches_offset [OF bi(3)] eq by simp
  then have "occupied P ht (slot_field ht b i)" using r bi(2) by (intro occupiedI)
  then show ?thesis using bi(4) eq by simp
qed

lemma wf_ndn_contains:
  assumes "params_ok P" "wf_ht P ht" "ndn_contains P url len t d ht = Inr (r, ht')"
  shows "wf_ht P ht'"
proof (cases "lookup_ptr P url len ht")
  case None
  with assms show ?thesis by (simp add: ndn_contains_eq split: if_splits)
next
  case (Some p)
  then have "occupied P ht p" using assms(1,2) by (intro lookup_ptr_occupied)
  then have "wf_ht P (upgrade t d p ht)" using assms(2) by (intro wf_upgrade)
  with assms Some show ?thesis by (auto simp add: ndn_contains_eq split: if_splits)
qed

lemma wf_ndn_ht_insert:
  assumes P: "params_ok P" and wf: "wf_ht P ht"
    and ins: "ndn_ht_insert P url len t d ht = Inr (r, ht')"
  shows "wf_ht P ht'"
proof -
  have va: "valid_args P len t d" using ins by (auto simp: ndn_ht_insert_eq split: if_splits)
  show ?thesis
  proof (cases "lookup_ptr P url len ht")
    case (Some p)
    then have "occupied P ht p" using P wf by (intro lookup_ptr_occupied)
    then have "wf_ht P (upgrade t d p ht)" using wf by (intro wf_upgrade)
    with ins va Some show ?thesis by (auto simp add: ndn_ht_insert_eq)
  next
    case None
    show ?thesis
    proof (cases "insert_place P url len ht")
      case n: None
      with ins va None wf show ?thesis by (auto simp add: ndn_ht_insert_eq)
    next
      case (Some bi)
      obtain b i where bi: "bi = (b, i)" by (cases bi)
      have pl: "b \<in> candidates P url len" "i \<in> {0..<8}" "slot_offset_of ht b i = 0"
        using insert_place_Some [of P url len ht b i] Some bi by auto
      have r: "b \<in> {0..<NDN_NUM_BKT P}" using P pl(1) by (rule candidates_range)
      have e: "slot_field ht b i = 0"
        using slot_offset_of_field [OF P wf r pl(2)] pl(3) by simp
      have room: "log_head ht + NDN_LOG_HEADROOM P < NDN_LOG_CAP P"
        and ht': "ht' = write_record url len t d (url_tag url len) ht b i"
        using ins va None Some bi by (auto simp add: ndn_ht_insert_eq split: if_splits)
      have "0 \<le> len" "len \<le> NDN_MAX_URL_LENGTH P" using va by (auto simp: valid_args_def)
      then show ?thesis unfolding ht' using room by (intro wf_write_record [OF P wf r pl(2) e])
    qed
  qed
qed

lemma wf_run_call:
  "params_ok P \<Longrightarrow> wf_ht P ht \<Longrightarrow> run_call P c ht = Inr (r, ht') \<Longrightarrow> wf_ht P ht'"
  by (cases c) (auto intro: wf_ndn_contains wf_ndn_ht_insert)


lemma wf_ndn_init_ht: "params_ok P \<Longrightarrow> wf_ht P ndn_init_ht"
  by (simp add: wf_ht_def ndn_init_ht_def slot_field_def NDN_SLOT_TO_OFFSET_def params_ok_def)

section \<open>Records stay findable\<close>

lemma memcmp_log_cong:
  assumes "\<And>a. p \<le> a \<Longrightarrow> a < p + len \<Longrightarrow> lg' a = lg a"
  shows "memcmp_log url lg' p len = memcmp_log url lg p len"
proof -
  have eq: "map (\<lambda>k. lg' (p + int k)) [0..<nat len] = map (\<lambda>k. lg (p + int k)) [0..<nat len]"
    by (rule map_cong [OF refl]) (auto intro!: assms)
  show ?thesis unfolding memcmp_log_def eq by (rule refl)
qed

lemma match_kept:
  assumes P: "params_ok P" and wf: "wf_ht P ht"
    and b: "b \<in> {0..<NDN_NUM_BKT P}" and i: "i \<in> {0..<8}"
    and m: "slot_matches url len tag ht (slot (ht_index ht b) i)"
    and len: "0 \<le> len" "len \<le> 255"
    and idx: "slot (ht_index ht' b) i = slot (ht_index ht b) i"
    and lg: "\<And>a. a = slot_field ht b i \<or> (slot_field ht b i + 3 \<le> a \<and> a < rec_end ht (slot_field ht b i))
               \<Longrightarrow> ht_log ht' a = ht_log ht a"
  shows "slot_matches url len tag ht' (slot (ht_index ht' b) i)"
proof -
  let ?q = "slot_field ht b i"
  have q: "int_of_ULL (NDN_SLOT_TO_OFFSET (slot (ht_index ht b) i)) = ?q"
    using slot_offset_of_field [OF P wf b i] by (simp add: slot_offset_of_def)
  have l: "ht_log ht ?q = word_of_int len" using m by (simp add: slot_matches_def Let_def q)
  have re: "rec_end ht ?q = ?q + 3 + len" by (simp add: rec_end_def l uint_len_byte [OF len])
  have "memcmp_log url (ht_log ht') (?q + 3) len = memcmp_log url (ht_log ht) (?q + 3) len"
    by (rule memcmp_log_cong) (simp add: lg re)
  moreover have "ht_log ht' ?q = ht_log ht ?q" by (simp add: lg)
  ultimately show ?thesis using m by (simp add: slot_matches_def Let_def q idx)
qed

lemma match_occupied:
  assumes P: "params_ok P" and wf: "wf_ht P ht"
    and b: "b \<in> {0..<NDN_NUM_BKT P}" and i: "i \<in> {0..<8}"
    and m: "slot_matches url len tag ht (slot (ht_index ht b) i)"
  shows "occupied P ht (slot_field ht b i)"
proof -
  have "slot_field ht b i \<noteq> 0"
    using slot_matches_offset [OF m] slot_offset_of_field [OF P wf b i] by simp
  then show ?thesis using b i by (intro occupiedI)
qed

lemma match_kept_upgrade:
  assumes P: "params_ok P" and wf: "wf_ht P ht"
    and b: "b \<in> {0..<NDN_NUM_BKT P}" and i: "i \<in> {0..<8}"
    and m: "slot_matches url len tag ht (slot (ht_index ht b) i)"
    and len: "0 \<le> len" "len \<le> 255"
    and p: "occupied P ht p"
  shows "slot_matches url len tag (upgrade t d p ht) (slot (ht_index (upgrade t d p ht) b) i)"
proof (rule match_kept [OF P wf b i m len])
  show "slot (ht_index (upgrade t d p ht) b) i = slot (ht_index ht b) i" by simp
next
  fix a
  assume a: "a = slot_field ht b i \<or> (slot_field ht b i + 3 \<le> a \<and> a < rec_end ht (slot_field ht b i))"
  note ap = occupied_apart [OF wf p match_occupied [OF P wf b i m]]
  have "a \<noteq> p + 1 \<and> a \<noteq> p + 2"
  proof (cases "a = slot_field ht b i")
    case True
    then show ?thesis using ap(1,2) by simp
  next
    case False
    then show ?thesis using a ap(3) by simp
  qed
  then show "ht_log (upgrade t d p ht) a = ht_log ht a" by (simp add: upgrade_log_other)
qed

lemma match_kept_write:
  assumes P: "params_ok P" and wf: "wf_ht P ht"
    and b: "b \<in> {0..<NDN_NUM_BKT P}" and i: "i \<in> {0..<8}"
    and m: "slot_matches url len tag ht (slot (ht_index ht b) i)"
    and len: "0 \<le> len" "len \<le> 255"
    and e: "slot_field ht b' i' = 0" and len': "0 \<le> len'"
  shows "slot_matches url len tag (write_record url' len' t d tag' ht b' i')
           (slot (ht_index (write_record url' len' t d tag' ht b' i') b) i)"
proof (rule match_kept [OF P wf b i m len])
  have o: "occupied P ht (slot_field ht b i)" by (rule match_occupied [OF P wf b i m])
  then have "slot_field ht b i \<noteq> 0" by (simp add: occupied_def)
  then have "\<not> (b = b' \<and> i = i')" using e by auto
  then show "slot (ht_index (write_record url' len' t d tag' ht b' i') b) i = slot (ht_index ht b) i"
    by (auto simp add: write_record_slot)
  fix a
  assume a: "a = slot_field ht b i \<or> (slot_field ht b i + 3 \<le> a \<and> a < rec_end ht (slot_field ht b i))"
  have "rec_end ht (slot_field ht b i) \<le> log_head ht" using wf o by (simp add: wf_ht_occ)
  then have "a < log_head ht" using a rec_end_ge [of "slot_field ht b i" ht] by linarith
  then show "ht_log (write_record url' len' t d tag' ht b' i') a = ht_log ht a"
    using len' by (simp add: write_record_log_outside)
qed

lemma match_new:
  assumes key: "valid_key P url len" and lh: "1 \<le> log_head ht" "log_head ht < 2 ^ 31"
  shows "slot_matches url len (url_tag url len)
           (write_record url len t d (url_tag url len) ht b i)
           (slot (ht_index (write_record url len t d (url_tag url len) ht b i) b) i)"
proof -
  let ?ht = "write_record url len t d (url_tag url len) ht b i"
  let ?s = "push_bit 48 (ucast (url_tag url len) :: 64 word) OR ULL_of_int (log_head ht)"
  have k: "2 \<le> len" "nat len \<le> length url" using key by (auto simp: valid_key_def)
  have lh48: "0 \<le> log_head ht" "log_head ht < 2 ^ 48" using lh by auto
  have s: "slot (ht_index ?ht b) i = ?s" by (simp add: write_record_slot)
  have "uint (word_of_int (log_head ht) :: 64 word) = log_head ht"
    using lh by (intro uint_word_of_int_small) auto
  then have off: "int_of_ULL (NDN_SLOT_TO_OFFSET ?s) = log_head ht"
    using lh by (simp add: offset_pack [OF lh48] int_of_ULL_small)
  have tg: "ucast (NDN_SLOT_TO_TAG ?s) = url_tag url len" by (rule tag_pack [OF lh48])
  have l0: "ht_log ?ht (log_head ht) = word_of_int len" by (simp add: write_record_log)
  have "map (\<lambda>k. ht_log ?ht (log_head ht + 3 + int k)) [0..<nat len] = take (nat len) url"
  proof (rule nth_equalityI)
    show "length (map (\<lambda>k. ht_log ?ht (log_head ht + 3 + int k)) [0..<nat len]) = length (take (nat len) url)"
      using k by simp
  next
    fix j assume "j < length (map (\<lambda>k. ht_log ?ht (log_head ht + 3 + int k)) [0..<nat len])"
    then have j: "j < nat len" by simp
    then have "int j < len" by linarith
    with j show "map (\<lambda>k. ht_log ?ht (log_head ht + 3 + int k)) [0..<nat len] ! j = take (nat len) url ! j"
      by (simp add: write_record_log)
  qed
  then have mc: "memcmp_log url (ht_log ?ht) (log_head ht + 3) len" by (simp add: memcmp_log_def)
  show ?thesis
    unfolding s using lh by (simp add: slot_matches_def Let_def off tg l0 mc)
qed

lemma match_kept_call:
  assumes P: "params_ok P" and wf: "wf_ht P ht"
    and b: "b \<in> {0..<NDN_NUM_BKT P}" and i: "i \<in> {0..<8}"
    and m: "slot_matches url len tag ht (slot (ht_index ht b) i)"
    and len: "0 \<le> len" "len \<le> 255"
    and c: "run_call P c ht = Inr (r, ht')"
  shows "slot_matches url len tag ht' (slot (ht_index ht' b) i)"
proof -
  have up: "slot_matches url len tag (upgrade t d p ht) (slot (ht_index (upgrade t d p ht) b) i)"
    if "lookup_ptr P url' len' ht = Some p" for t d p url' len'
    using lookup_ptr_occupied [OF P wf that] by (intro match_kept_upgrade [OF P wf b i m len])
  show ?thesis
  proof (cases c)
    case (Contains url' len' t d)
    then have "ndn_contains P url' len' t d ht = Inr (r, ht')" using c by simp
    then show ?thesis using m up [of url' len']
      by (auto simp add: ndn_contains_eq split: if_splits option.splits)
  next
    case (Insert url' len' t d)
    then have ins: "ndn_ht_insert P url' len' t d ht = Inr (r, ht')" using c by simp
    then have va: "valid_args P len' t d" by (auto simp: ndn_ht_insert_eq split: if_splits)
    show ?thesis
    proof (cases "lookup_ptr P url' len' ht")
      case (Some p)
      then show ?thesis using ins va up [of url' len'] by (auto simp add: ndn_ht_insert_eq)
    next
      case None
      show ?thesis
      proof (cases "insert_place P url' len' ht")
        case n: None
        with ins va None m show ?thesis by (auto simp add: ndn_ht_insert_eq)
      next
        case (Some bi)
        obtain b' i' where bi: "bi = (b', i')" by (cases bi)
        have pl: "b' \<in> candidates P url' len'" "i' \<in> {0..<8}" "slot_offset_of ht b' i' = 0"
          using insert_place_Some [of P url' len' ht b' i'] Some bi by auto
        have e: "slot_field ht b' i' = 0"
          using slot_offset_of_field [OF P wf candidates_range [OF P pl(1)] pl(2)] pl(3) by simp
        have ht': "ht' = write_record url' len' t d (url_tag url' len') ht b' i'"
          using ins va None Some bi by (auto simp add: ndn_ht_insert_eq split: if_splits)
        have "0 \<le> len'" using va by (simp add: valid_args_def)
        then show ?thesis unfolding ht' by (intro match_kept_write [OF P wf b i m len e])
      qed
    qed
  qed
qed

lemma match_kept_calls:
  assumes P: "params_ok P" and b: "b \<in> {0..<NDN_NUM_BKT P}" and i: "i \<in> {0..<8}"
    and len: "0 \<le> len" "len \<le> 255"
  shows "wf_ht P ht \<Longrightarrow> slot_matches url len tag ht (slot (ht_index ht b) i)
     \<Longrightarrow> run_calls P cs ht = Inr ht' \<Longrightarrow> slot_matches url len tag ht' (slot (ht_index ht' b) i)"
proof (induction cs arbitrary: ht)
  case Nil
  then show ?case by simp
next
  case (Cons c cs)
  from Cons.prems(3) obtain r ht1 where c: "run_call P c ht = Inr (r, ht1)"
    and cs: "run_calls P cs ht1 = Inr ht'"
    by (auto split: sum.splits)
  have "wf_ht P ht1" using P Cons.prems(1) c by (rule wf_run_call)
  moreover have "slot_matches url len tag ht1 (slot (ht_index ht1 b) i)"
    using P Cons.prems(1) b i Cons.prems(2) len c by (rule match_kept_call)
  ultimately show ?case using cs by (rule Cons.IH)
qed

lemma upgrade_no_request [simp]: "upgrade 0 d p ht = ht"
  by (simp add: upgrade_def)

lemma inserted_matches:
  assumes P: "params_ok P" and wf: "wf_ht P ht" and key: "valid_key P url len"
    and ins: "ndn_ht_insert P url len t d ht = Inr (0, ht1)"
  shows "\<exists>b\<in>candidates P url len. \<exists>i\<in>{0..<8}.
           slot_matches url len (url_tag url len) ht1 (slot (ht_index ht1 b) i)"
proof -
  have va: "valid_args P len t d" using ins by (auto simp: ndn_ht_insert_eq split: if_splits)
  have len: "0 \<le> len" "len \<le> 255" using key P by (auto simp: valid_key_def params_ok_def)
  show ?thesis
  proof (cases "lookup_ptr P url len ht")
    case (Some p)
    then have ht1: "ht1 = upgrade t d p ht" using ins va by (simp add: ndn_ht_insert_eq)
    from lookup_ptr_Some [OF Some] obtain b i where
      bi: "b \<in> candidates P url len" "i \<in> {0..<8}"
        "slot_matches url len (url_tag url len) ht (slot (ht_index ht b) i)"
      by blast
    have "slot_matches url len (url_tag url len) ht1 (slot (ht_index ht1 b) i)"
      unfolding ht1
      by (rule match_kept_upgrade [OF P wf candidates_range [OF P bi(1)] bi(2,3) len
            lookup_ptr_occupied [OF P wf Some]])
    then show ?thesis using bi by blast
  next
    case None
    then obtain b i where pl: "insert_place P url len ht = Some (b, i)"
      and ht1: "ht1 = write_record url len t d (url_tag url len) ht b i"
      using ins va by (auto simp add: ndn_ht_insert_eq split: option.splits if_splits)
    have bi: "b \<in> candidates P url len" "i \<in> {0..<8}" using insert_place_Some [OF pl] by auto
    have "1 \<le> log_head ht" "log_head ht < 2 ^ 31"
      using wf P by (auto simp: wf_ht_occ params_ok_def)
    then have "slot_matches url len (url_tag url len) ht1 (slot (ht_index ht1 b) i)"
      unfolding ht1 by (intro match_new [OF key])
    then show ?thesis using bi by blast
  qed
qed

section \<open>Terminal records stay as they are\<close>

lemma occupied_write_record:
  assumes P: "params_ok P" and wf: "wf_ht P ht" and e: "slot_field ht b i = 0"
    and q: "occupied P ht q"
  shows "occupied P (write_record url len t d tag ht b i) q"
proof -
  have lh: "0 \<le> log_head ht" "log_head ht < 2 ^ 48"
    using wf P by (auto simp: wf_ht_occ params_ok_def)
  from q obtain b' i' where o: "q \<noteq> 0" "b' \<in> {0..<NDN_NUM_BKT P}" "i' \<in> {0..<8}"
    "slot_field ht b' i' = q"
    unfolding occupied_def by blast
  then have "\<not> (b' = b \<and> i' = i)" using e by auto
  then have "slot_field (write_record url len t d tag ht b i) b' i' = q"
    using o by (auto simp add: write_record_slot_field [OF lh])
  then show ?thesis unfolding occupied_def using o by blast
qed

text \<open>One call leaves the metadata of a terminal record as it is, and the record in its slot.\<close>

lemma latch_call:
  assumes P: "params_ok P" and wf: "wf_ht P ht" and q: "occupied P ht q"
    and tm: "ht_log ht (q + 1) \<noteq> 0" and c: "run_call P c ht = Inr (r, ht')"
  shows "occupied P ht' q \<and> ht_log ht' (q + 1) = ht_log ht (q + 1) \<and>
         ht_log ht' (q + 2) = ht_log ht (q + 2)"
proof -
  have up: "occupied P (upgrade t d p ht) q \<and>
      ht_log (upgrade t d p ht) (q + 1) = ht_log ht (q + 1) \<and>
      ht_log (upgrade t d p ht) (q + 2) = ht_log ht (q + 2)"
    if "lookup_ptr P url len ht = Some p" for t d p url len
  proof (cases "p = q")
    case True
    then have "upgrade t d p ht = ht" using tm by (simp add: upgrade_def)
    then show ?thesis using q by simp
  next
    case False
    have po: "occupied P ht p" by (rule lookup_ptr_occupied [OF P wf that])
    have "q \<noteq> p + 1" "p \<noteq> q + 1"
      using occupied_apart(1) [OF wf po q] occupied_apart(1) [OF wf q po] by auto
    then show ?thesis using False q by (simp add: upgrade_log_other)
  qed
  have wr: "occupied P (write_record url len t d tag ht b i) q \<and>
      ht_log (write_record url len t d tag ht b i) (q + 1) = ht_log ht (q + 1) \<and>
      ht_log (write_record url len t d tag ht b i) (q + 2) = ht_log ht (q + 2)"
    if "insert_place P url len ht = Some (b, i)" "0 \<le> len" for url len t d tag b i
  proof -
    have pl: "b \<in> candidates P url len" "i \<in> {0..<8}" "slot_offset_of ht b i = 0"
      using insert_place_Some [OF that(1)] by auto
    have e: "slot_field ht b i = 0"
      using slot_offset_of_field [OF P wf candidates_range [OF P pl(1)] pl(2)] pl(3) by simp
    have "rec_end ht q \<le> log_head ht" using wf q by (simp add: wf_ht_occ)
    then have "q + 2 < log_head ht" using rec_end_ge [of q ht] by linarith
    then show ?thesis
      using occupied_write_record [OF P wf e q] that(2) by (simp add: write_record_log_outside)
  qed
  show ?thesis
  proof (cases c)
    case (Contains url len t d)
    then have "ndn_contains P url len t d ht = Inr (r, ht')" using c by simp
    then show ?thesis using q up [of url len]
      by (auto simp add: ndn_contains_eq split: if_splits option.splits)
  next
    case (Insert url len t d)
    then have ins: "ndn_ht_insert P url len t d ht = Inr (r, ht')" using c by simp
    then have va: "valid_args P len t d" by (auto simp: ndn_ht_insert_eq split: if_splits)
    then have "0 \<le> len" by (simp add: valid_args_def)
    then show ?thesis using ins va q up [of url len] wr [of url len]
      by (auto simp add: ndn_ht_insert_eq split: if_splits option.splits)
  qed
qed

lemma latch_calls:
  assumes P: "params_ok P"
  shows "wf_ht P ht \<Longrightarrow> occupied P ht q \<Longrightarrow> ht_log ht (q + 1) \<noteq> 0
     \<Longrightarrow> run_calls P cs ht = Inr ht'
     \<Longrightarrow> ht_log ht' (q + 1) = ht_log ht (q + 1) \<and> ht_log ht' (q + 2) = ht_log ht (q + 2)"
proof (induction cs arbitrary: ht)
  case Nil
  then show ?case by simp
next
  case (Cons c cs)
  from Cons.prems(4) obtain r ht1 where c: "run_call P c ht = Inr (r, ht1)"
    and cs: "run_calls P cs ht1 = Inr ht'"
    by (auto split: sum.splits)
  have wf1: "wf_ht P ht1" using P Cons.prems(1) c by (rule wf_run_call)
  note l = latch_call [OF P Cons.prems(1,2,3) c]
  have "ht_log ht' (q + 1) = ht_log ht1 (q + 1) \<and> ht_log ht' (q + 2) = ht_log ht1 (q + 2)"
    using wf1 l Cons.prems(3) cs by (intro Cons.IH) auto
  then show ?case using l by simp
qed

section \<open>The slots that a call changes\<close>

lemma int_of_ULL_zero: "int_of_ULL 0 = 0"
  by (simp add: int_of_ULL_def)

lemma call_slots:
  assumes P: "params_ok P" and wf: "wf_ht P ht" and c: "run_call P c ht = Inr (r, ht')"
    and b: "b \<in> {0..<NDN_NUM_BKT P}" and i: "i \<in> {0..<8}"
    and ne: "slot (ht_index ht' b) i \<noteq> slot (ht_index ht b) i"
  shows "slot_field ht b i = 0 \<and> slot_field ht' b i = log_head ht"
proof -
  have lh: "0 \<le> log_head ht" "log_head ht < 2 ^ 48"
    using wf P by (auto simp: wf_ht_occ params_ok_def)
  have wr: "slot_field ht b i = 0 \<and>
      slot_field (write_record url len t d tag ht b' i') b i = log_head ht"
    if "insert_place P url len ht = Some (b', i')"
      "slot (ht_index (write_record url len t d tag ht b' i') b) i \<noteq> slot (ht_index ht b) i"
    for url len t d tag b' i'
  proof -
    have pl: "b' \<in> candidates P url len" "i' \<in> {0..<8}" "slot_offset_of ht b' i' = 0"
      using insert_place_Some [OF that(1)] by auto
    have e: "slot_field ht b' i' = 0"
      using slot_offset_of_field [OF P wf candidates_range [OF P pl(1)] pl(2)] pl(3) by simp
    have "b = b' \<and> i = i'" using that(2) by (auto simp: write_record_slot split: if_splits)
    then show ?thesis using e by (simp add: write_record_slot_field [OF lh])
  qed
  show ?thesis
  proof (cases c)
    case (Contains url len t d)
    then have "ndn_contains P url len t d ht = Inr (r, ht')" using c by simp
    then have "ht_index ht' = ht_index ht"
      by (auto simp add: ndn_contains_eq split: if_splits option.splits)
    then show ?thesis using ne by simp
  next
    case (Insert url len t d)
    then have ins: "ndn_ht_insert P url len t d ht = Inr (r, ht')" using c by simp
    then show ?thesis using ne wr [of url len]
      by (auto simp add: ndn_ht_insert_eq split: if_splits option.splits)
  qed
qed

section \<open>The concrete instance, evaluated\<close>

lemma scenario_ok: "params_ok scenario"
  by (simp add: params_ok_def scenario_def)

lemma scenario_a:
  "ndn_ht_insert scenario [97, 47] 2 0 (- 1) ndn_init_ht = Inr (0, ht_a)"
proof -
  have "lookup_ptr scenario [97, 47] 2 ndn_init_ht = None" by code_simp
  moreover have "insert_place scenario [97, 47] 2 ndn_init_ht = Some (5, 0)" by code_simp
  moreover have "url_tag [97, 47] 2 = 97" by code_simp
  moreover have "valid_args scenario 2 0 (- 1)" by code_simp
  moreover have "log_head ndn_init_ht + NDN_LOG_HEADROOM scenario < NDN_LOG_CAP scenario"
    by code_simp
  ultimately show ?thesis by (simp add: ndn_ht_insert_eq ht_a_def)
qed

lemma scenario_ab:
  "ndn_ht_insert scenario [97, 47, 98, 47] 4 1 3 ht_a = Inr (0, ht_ab)"
proof -
  have "lookup_ptr scenario [97, 47, 98, 47] 4 ht_a = None" by code_simp
  moreover have "insert_place scenario [97, 47, 98, 47] 4 ht_a = Some (2, 0)" by code_simp
  moreover have "url_tag [97, 47, 98, 47] 4 = 98" by code_simp
  moreover have "valid_args scenario 4 1 3" by code_simp
  moreover have "log_head ht_a + NDN_LOG_HEADROOM scenario < NDN_LOG_CAP scenario"
    by code_simp
  ultimately show ?thesis by (simp add: ndn_ht_insert_eq ht_ab_def)
qed




lemma full_ht_absent: "lookup_ptr one_bucket [105, 47] 2 full_ht = None" by code_simp
lemma full_ht_no_place: "insert_place one_bucket [105, 47] 2 full_ht = None" by code_simp
lemma full_ht_head: "log_head full_ht = 41" by code_simp

lemma full_ht_insert: "ndn_ht_insert one_bucket [105, 47] 2 1 5 full_ht = Inr (- 1, full_ht)"
proof -
  have "valid_args one_bucket 2 1 5" by code_simp
  then show ?thesis by (simp add: ndn_ht_insert_eq full_ht_absent full_ht_no_place)
qed

lemma scenario_wf_a: "wf_ht scenario ht_a"
  using scenario_ok wf_ndn_init_ht [OF scenario_ok] scenario_a by (rule wf_ndn_ht_insert)

lemma scenario_wf_ab: "wf_ht scenario ht_ab"
  using scenario_ok scenario_wf_a scenario_ab by (rule wf_ndn_ht_insert)

lemma scenario_find_a: "lookup_ptr scenario [97, 47] 2 ht_a = Some 1"
  by code_simp

lemma scenario_find_a_ab: "lookup_ptr scenario [97, 47] 2 ht_ab = Some 1"
  by code_simp

lemma scenario_find_ab: "lookup_ptr scenario [97, 47, 98, 47] 4 ht_ab = Some 6"
  by code_simp

lemma scenario_bytes: "ht_log ht_a 2 = 0" "ht_log ht_ab 2 = 0" "ht_log ht_ab 7 = 1" "ht_log ht_ab 8 = 3"
  by code_simp+

lemma scenario_occupied_ab: "occupied scenario ht_ab 6"
proof -
  have f: "slot_field ht_ab 2 0 = 6" by code_simp
  have "occupied scenario ht_ab (slot_field ht_ab 2 0)"
    by (rule occupiedI) (simp_all add: scenario_def f)
  then show ?thesis by (simp add: f)
qed

lemma small_log_ok: "params_ok small_log"
  by (simp add: params_ok_def small_log_def scenario_def)

lemma small_log_absent: "lookup_ptr small_log [97, 47, 98, 47] 4 ht_a = None"
  by code_simp

lemma small_log_place: "insert_place small_log [97, 47, 98, 47] 4 ht_a = Some (2, 0)"
  by code_simp

lemma scenario_absent: "lookup_ptr scenario [97, 47] 2 ndn_init_ht = None"
  by code_simp

lemma scenario_place: "insert_place scenario [97, 47] 2 ndn_init_ht = Some (5, 0)"
  by code_simp

lemma scenario_args: "valid_args scenario 2 0 (- 1)" "valid_args scenario 2 1 5"
  "valid_args scenario 4 1 3" "valid_args scenario 4 1 9" "valid_args small_log 4 1 3"
  "valid_args one_bucket 2 1 5"
  by code_simp+

lemma scenario_heads: "log_head ndn_init_ht = 1" "log_head ht_a = 6" "log_head ht_ab = 13"
  by code_simp+

section \<open>The loop of ndn\_init as a sequence of insertions\<close>








section \<open>The records that a loading writes\<close>






lemma length_call_record:
  "key_insert c \<Longrightarrow> 0 \<le> call_len c \<Longrightarrow> int (length (call_record c)) = 3 + call_len c"
  by (cases c) auto

lemma length_log_bytes [simp]: "length (log_bytes ht p n) = n"
  by (simp add: log_bytes_def)












section \<open>The properties\<close>

text \<open>
  Claim C1 (round trip). In a well-formed table, once \<open>ndn_ht_insert\<close> has returned 0 for a
  key of valid length, \<open>ndn_contains\<close> with \<open>is_terminal = 0\<close> returns 1 for that key
  and leaves the table as it is: right after the insertion, and after any sequence of later
  calls (insertions of other keys, successful or not, and lookups) that return.
\<close>

theorem insert_then_contains:
  assumes "params_ok P" and "wf_ht P ht" and "valid_key P url len"
    and "ndn_ht_insert P url len is_terminal dst_port_id ht = Inr (0, ht1)"
    and "run_calls P cs ht1 = Inr ht2"
  shows "ndn_contains P url len 0 d ht1 = Inr (1, ht1) \<and>
         ndn_contains P url len 0 d ht2 = Inr (1, ht2)"
proof -
  have len: "0 \<le> len" "len \<le> 255" "2 \<le> len"
    using assms(1,3) by (auto simp: valid_key_def params_ok_def)
  from inserted_matches [OF assms(1-4)] obtain b i where
    bi: "b \<in> candidates P url len" "i \<in> {0..<8}"
      "slot_matches url len (url_tag url len) ht1 (slot (ht_index ht1 b) i)"
    by blast
  have wf1: "wf_ht P ht1" using assms(1,2,4) by (rule wf_ndn_ht_insert)
  have "slot_matches url len (url_tag url len) ht2 (slot (ht_index ht2 b) i)"
    using assms(1) candidates_range [OF assms(1) bi(1)] bi(2) len(1,2) wf1 bi(3) assms(5)
    by (rule match_kept_calls)
  then have "lookup_ptr P url len ht2 \<noteq> None" using bi(1,2) unfolding lookup_ptr_None by blast
  moreover have "lookup_ptr P url len ht1 \<noteq> None" using bi unfolding lookup_ptr_None by blast
  ultimately show ?thesis using len by (auto simp add: ndn_contains_eq)
qed

theorem insert_then_contains_witness:
  "params_ok scenario \<and> wf_ht scenario ndn_init_ht \<and> valid_key scenario [97, 47] 2 \<and>
   ndn_ht_insert scenario [97, 47] 2 0 (- 1) ndn_init_ht = Inr (0, ht_a) \<and>
   run_calls scenario [Insert [97, 47, 98, 47] 4 1 3] ht_a = Inr ht_ab \<and>
   ndn_contains scenario [97, 47] 2 0 0 ht_a = Inr (1, ht_a) \<and>
   ndn_contains scenario [97, 47] 2 0 0 ht_ab = Inr (1, ht_ab)"
proof -
  have h2: "wf_ht scenario ndn_init_ht" using scenario_ok by (rule wf_ndn_init_ht)
  have h3: "valid_key scenario [97, 47] 2" by (simp add: valid_key_def scenario_def)
  have h5: "run_calls scenario [Insert [97, 47, 98, 47] 4 1 3] ht_a = Inr ht_ab"
    by (simp add: scenario_ab)
  show ?thesis
    using insert_then_contains [OF scenario_ok h2 h3 scenario_a h5, of 0] scenario_ok h2 h3 scenario_a h5
    by simp
qed

text \<open>
  Claim C2 (idempotent insert). When a lookup without upgrade finds the key, an insertion
  of that key with arguments that pass the assertions, whatever its \<open>is_terminal\<close> and
  \<open>dst_port_id\<close>, returns 0 with the table that the lookup with the same arguments leaves:
  the bucket index is the same, so no slot is written and no second record exists, and
  \<open>log_head\<close> is the same.
\<close>

theorem duplicate_insert:
  assumes "valid_args P len is_terminal dst_port_id"
    and "ndn_contains P url len 0 d ht = Inr (1, ht0)"
  shows "\<exists>ht'. ndn_ht_insert P url len is_terminal dst_port_id ht = Inr (0, ht') \<and>
           ndn_contains P url len is_terminal dst_port_id ht = Inr (1, ht') \<and>
           ht_index ht' = ht_index ht \<and> log_head ht' = log_head ht"
  using assms
  by (auto simp add: ndn_contains_eq ndn_ht_insert_eq valid_args_def split: if_splits option.splits)

theorem duplicate_insert_witness:
  "valid_args scenario 2 1 5 \<and>
   ndn_contains scenario [97, 47] 2 0 0 ht_a = Inr (1, ht_a) \<and>
   (\<exists>ht'. ndn_ht_insert scenario [97, 47] 2 1 5 ht_a = Inr (0, ht') \<and>
          ndn_contains scenario [97, 47] 2 1 5 ht_a = Inr (1, ht') \<and>
          ht_index ht' = ht_index ht_a \<and> log_head ht' = 6)"
proof -
  have h: "ndn_contains scenario [97, 47] 2 0 0 ht_a = Inr (1, ht_a)"
    by (simp add: ndn_contains_eq scenario_find_a)
  show ?thesis
    using duplicate_insert [OF scenario_args(2) h] scenario_args(2) h
    by (simp add: scenario_heads)
qed

text \<open>
  Claim C3 (one-way terminal latch). A lookup that asks for terminal status and finds a
  record whose \<open>is_terminal\<close> byte is 0 returns 1 with that byte set to 1 and the
  \<open>dst_port\<close> byte set to the port (as a byte). In a well-formed table, the two bytes of
  a record that is terminal are the same after any sequence of lookups and insertions,
  with any arguments, that return.
\<close>

theorem terminal_latch:
  "(2 \<le> len \<and> lookup_ptr P url len ht = Some p \<and> ht_log ht (p + 1) = 0 \<longrightarrow>
      (\<exists>ht'. ndn_contains P url len 1 dst_port_id ht = Inr (1, ht') \<and>
             ht_log ht' (p + 1) = 1 \<and> ht_log ht' (p + 2) = word_of_int dst_port_id)) \<and>
   (params_ok P \<and> wf_ht P ht \<and> occupied P ht q \<and> ht_log ht (q + 1) \<noteq> 0 \<and>
    run_calls P cs ht = Inr ht2 \<longrightarrow>
      ht_log ht2 (q + 1) = ht_log ht (q + 1) \<and> ht_log ht2 (q + 2) = ht_log ht (q + 2))"
proof (intro conjI impI)
  assume "2 \<le> len \<and> lookup_ptr P url len ht = Some p \<and> ht_log ht (p + 1) = 0"
  then show "\<exists>ht'. ndn_contains P url len 1 dst_port_id ht = Inr (1, ht') \<and>
             ht_log ht' (p + 1) = 1 \<and> ht_log ht' (p + 2) = word_of_int dst_port_id"
    by (simp add: ndn_contains_eq upgrade_def)
next
  assume a: "params_ok P \<and> wf_ht P ht \<and> occupied P ht q \<and> ht_log ht (q + 1) \<noteq> 0 \<and>
    run_calls P cs ht = Inr ht2"
  then show "ht_log ht2 (q + 1) = ht_log ht (q + 1)" using latch_calls [of P ht q cs ht2] by simp
  from a show "ht_log ht2 (q + 2) = ht_log ht (q + 2)" using latch_calls [of P ht q cs ht2] by simp
qed

theorem terminal_latch_witness:
  "lookup_ptr scenario [97, 47] 2 ht_ab = Some 1 \<and> ht_log ht_ab 2 = 0 \<and>
   (\<exists>ht'. ndn_contains scenario [97, 47] 2 1 5 ht_ab = Inr (1, ht') \<and>
          ht_log ht' 2 = 1 \<and> ht_log ht' 3 = 5) \<and>
   params_ok scenario \<and> wf_ht scenario ht_ab \<and> occupied scenario ht_ab 6 \<and> ht_log ht_ab 7 = 1 \<and>
   run_calls scenario
     [Contains [97, 47, 98, 47] 4 1 9, Insert [97, 47, 98, 47] 4 1 9] ht_ab = Inr ht_ab"
proof -
  have u: "upgrade 1 9 6 ht_ab = ht_ab" by (simp add: upgrade_def scenario_bytes)
  have r: "run_calls scenario
     [Contains [97, 47, 98, 47] 4 1 9, Insert [97, 47, 98, 47] 4 1 9] ht_ab = Inr ht_ab"
    by (simp add: ndn_contains_eq ndn_ht_insert_eq scenario_find_ab scenario_args u)
  show ?thesis
    using terminal_latch [of 2 scenario "[97, 47]" ht_ab 1 5 6
        "[Contains [97, 47, 98, 47] 4 1 9, Insert [97, 47, 98, 47] 4 1 9]" ht_ab]
      scenario_find_a_ab scenario_bytes scenario_ok scenario_wf_ab scenario_occupied_ab r
    by simp
qed

text \<open>
  Claim C4 (log capacity check). For an insertion that appends (the arguments pass the
  assertions, the key is not in the table and a candidate slot is empty): when
  \<open>log_head + NDN_LOG_HEADROOM\<close> is not below \<open>NDN_LOG_CAP\<close> the assertion of line 126
  fails and nothing is returned; otherwise the insertion returns 0 and has appended the
  record: the length, \<open>is_terminal\<close> and port bytes and the \<open>len\<close> bytes of the key stand
  at the old log head, the empty slot holds the tag over the old log head and no other
  slot has changed, the log head has moved by \<open>3 + len\<close> and is within the capacity, and
  no byte of the log outside the new record, so none at or past the capacity, has changed.
\<close>

theorem log_capacity_check:
  assumes "params_ok P" and "valid_args P len is_terminal dst_port_id"
    and "ndn_contains P url len 0 0 ht = Inr (0, ht)"
    and "insert_place P url len ht = Some (b, i)"
  shows "(NDN_LOG_CAP P \<le> log_head ht + NDN_LOG_HEADROOM P \<longrightarrow>
            ndn_ht_insert P url len is_terminal dst_port_id ht = Inl AssertFailed) \<and>
         (log_head ht + NDN_LOG_HEADROOM P < NDN_LOG_CAP P \<longrightarrow>
            (\<exists>ht'. ndn_ht_insert P url len is_terminal dst_port_id ht = Inr (0, ht') \<and>
                   log_head ht' = log_head ht + 3 + len \<and> log_head ht' \<le> NDN_LOG_CAP P \<and>
                   ht_log ht' (log_head ht) = word_of_int len \<and>
                   ht_log ht' (log_head ht + 1) = word_of_int is_terminal \<and>
                   ht_log ht' (log_head ht + 2) = word_of_int dst_port_id \<and>
                   (\<forall>k. 0 \<le> k \<and> k < len \<longrightarrow> ht_log ht' (log_head ht + 3 + k) = url ! nat k) \<and>
                   (\<forall>a. a < log_head ht \<or> log_head ht' \<le> a \<longrightarrow> ht_log ht' a = ht_log ht a) \<and>
                   slot (ht_index ht' b) i =
                     push_bit 48 (ucast (url_tag url len)) OR ULL_of_int (log_head ht) \<and>
                   (\<forall>b' i'. \<not> (b' = b \<and> i' = i) \<longrightarrow>
                      slot (ht_index ht' b') i' = slot (ht_index ht b') i')))"
proof -
  have v: "2 \<le> len" "len \<le> NDN_MAX_URL_LENGTH P" using assms(2) by (auto simp: valid_args_def)
  have h: "NDN_MAX_URL_LENGTH P + 3 \<le> NDN_LOG_HEADROOM P" using assms(1) by (simp add: params_ok_def)
  have n: "lookup_ptr P url len ht = None"
    using assms(3) v by (auto simp: ndn_contains_eq split: option.splits)
  let ?ht = "write_record url len is_terminal dst_port_id (url_tag url len) ht b i"
  have key: "ht_log ?ht (log_head ht + 3 + k) = url ! nat k" if "0 \<le> k" "k < len" for k
    using that by (simp add: write_record_log)
  have sl: "slot (ht_index ?ht b') i' = slot (ht_index ht b') i'" if "\<not> (b' = b \<and> i' = i)" for b' i'
    using that by (auto simp add: write_record_slot)
  have "ndn_ht_insert P url len is_terminal dst_port_id ht = Inl AssertFailed"
    if "NDN_LOG_CAP P \<le> log_head ht + NDN_LOG_HEADROOM P"
    using that assms(2,4) n by (simp add: ndn_ht_insert_eq)
  moreover have "ndn_ht_insert P url len is_terminal dst_port_id ht = Inr (0, ?ht)"
    if "log_head ht + NDN_LOG_HEADROOM P < NDN_LOG_CAP P"
    using that assms(2,4) n by (simp add: ndn_ht_insert_eq)
  moreover have "log_head ?ht \<le> NDN_LOG_CAP P"
    if "log_head ht + NDN_LOG_HEADROOM P < NDN_LOG_CAP P"
    using that v h by simp
  moreover have "ht_log ?ht (log_head ht) = word_of_int len"
    "ht_log ?ht (log_head ht + 1) = word_of_int is_terminal"
    "ht_log ?ht (log_head ht + 2) = word_of_int dst_port_id"
    using v by (simp_all add: write_record_log)
  moreover have "\<forall>a. a < log_head ht \<or> log_head ?ht \<le> a \<longrightarrow> ht_log ?ht a = ht_log ht a"
    using v by (auto simp add: write_record_log_outside)
  moreover have "slot (ht_index ?ht b) i =
      push_bit 48 (ucast (url_tag url len)) OR ULL_of_int (log_head ht)"
    by (simp add: write_record_slot)
  ultimately show ?thesis using key sl by (auto simp add: add.assoc)
qed

theorem log_capacity_check_witness:
  "params_ok scenario \<and> valid_args scenario 2 0 (- 1) \<and>
   ndn_contains scenario [97, 47] 2 0 0 ndn_init_ht = Inr (0, ndn_init_ht) \<and>
   insert_place scenario [97, 47] 2 ndn_init_ht = Some (5, 0) \<and>
   log_head ndn_init_ht + NDN_LOG_HEADROOM scenario < NDN_LOG_CAP scenario \<and>
   ndn_ht_insert scenario [97, 47] 2 0 (- 1) ndn_init_ht = Inr (0, ht_a) \<and> log_head ht_a = 6 \<and>
   ht_log ht_a 1 = 2 \<and> ht_log ht_a 2 = 0 \<and> ht_log ht_a 3 = 255 \<and>
   ht_log ht_a 4 = 97 \<and> ht_log ht_a 5 = 47 \<and>
   slot (ht_index ht_a 5) 0 = push_bit 48 97 OR 1 \<and>
   params_ok small_log \<and> valid_args small_log 4 1 3 \<and>
   ndn_contains small_log [97, 47, 98, 47] 4 0 0 ht_a = Inr (0, ht_a) \<and>
   insert_place small_log [97, 47, 98, 47] 4 ht_a = Some (2, 0) \<and>
   NDN_LOG_CAP small_log \<le> log_head ht_a + NDN_LOG_HEADROOM small_log \<and>
   ndn_ht_insert small_log [97, 47, 98, 47] 4 1 3 ht_a = Inl AssertFailed"
proof -
  have c1: "ndn_contains scenario [97, 47] 2 0 0 ndn_init_ht = Inr (0, ndn_init_ht)"
    by (simp add: ndn_contains_eq scenario_absent)
  have c2: "ndn_contains small_log [97, 47, 98, 47] 4 0 0 ht_a = Inr (0, ht_a)"
    by (simp add: ndn_contains_eq small_log_absent)
  have r1: "log_head ndn_init_ht + NDN_LOG_HEADROOM scenario < NDN_LOG_CAP scenario"
    by (simp add: scenario_heads scenario_def)
  have r2: "NDN_LOG_CAP small_log \<le> log_head ht_a + NDN_LOG_HEADROOM small_log"
    by (simp add: scenario_heads small_log_def scenario_def)
  have t: "url_tag [97, 47] 2 = 97" by code_simp
  have k: "\<forall>k. 0 \<le> k \<and> k < 2 \<longrightarrow> ht_log ht_a (1 + 3 + k) = [97, 47] ! nat k
     \<Longrightarrow> ht_log ht_a 4 = 97 \<and> ht_log ht_a 5 = 47"
  proof -
    assume a: "\<forall>k. 0 \<le> k \<and> k < 2 \<longrightarrow> ht_log ht_a (1 + 3 + k) = [97, 47] ! nat k"
    from a [rule_format, of 0] a [rule_format, of 1] show ?thesis by simp
  qed
  show ?thesis
    using log_capacity_check [OF scenario_ok scenario_args(1) c1 scenario_place]
      log_capacity_check [OF small_log_ok scenario_args(5) c2 small_log_place]
      scenario_ok scenario_args small_log_ok c1 c2 r1 r2 scenario_place small_log_place scenario_a k
    by (simp add: scenario_heads t ULL_of_int_def)
qed






text \<open>
  Claim C7 (bucket derivation). For a key of at least two bytes in its buffer, the lookup
  and the insertion compute the same tag and the same two candidate buckets, and these
  are the ones of the spec: the primary bucket is the hash of the key masked to the bucket
  range, the secondary bucket is the primary bucket XOR the hash of the two tag bytes,
  masked to the bucket range, and the tag comes from the byte before the final '/'. Both
  functions take the tag by the same expression, \<open>url_tag\<close> here.
\<close>

theorem bucket_derivation:
  assumes "params_ok P" and "2 \<le> len" and "nat len \<le> length url"
  shows "url_tag url len = spec_tag (take (nat len) url) \<and>
         contains_bkt_1 P url len = uint (spec_primary_bucket P (take (nat len) url)) \<and>
         contains_bkt_2 P (contains_bkt_1 P url len) (url_tag url len) =
           uint (spec_secondary_bucket P (spec_primary_bucket P (take (nat len) url))
                   (spec_tag (take (nat len) url))) \<and>
         insert_bkt_1 P url len = contains_bkt_1 P url len \<and>
         insert_bkt_2 P (insert_bkt_1 P url len) (url_tag url len) =
           contains_bkt_2 P (contains_bkt_1 P url len) (url_tag url len)"
proof -
  have l: "length (take (nat len) url) = nat len" using assms(3) by simp
  have "nat (len - 2) < nat len" using assms(2) by linarith
  then have "take (nat len) url ! nat (len - 2) = url ! nat (len - 2)" by (rule nth_take)
  moreover have "length (take (nat len) url) - 2 = nat (len - 2)" using assms(2) l by linarith
  ultimately have t: "url_tag url len = spec_tag (take (nat len) url)"
    by (simp only: url_tag_def spec_tag_def)
  have b1: "contains_bkt_1 P url len = uint (spec_primary_bucket P (take (nat len) url))"
    unfolding contains_bkt_1_def masked_bucket(1) [OF assms(1)]
    by (simp add: spec_primary_bucket_def ULL_of_int_def NDN_NUM_BKT_mask_def)
  have w: "ULL_of_int (contains_bkt_1 P url len) = spec_primary_bucket P (take (nat len) url)"
    unfolding b1 by (simp add: ULL_of_int_def)
  have b2: "contains_bkt_2 P (contains_bkt_1 P url len) (url_tag url len) =
           uint (spec_secondary_bucket P (spec_primary_bucket P (take (nat len) url))
                   (spec_tag (take (nat len) url)))"
    unfolding contains_bkt_2_def masked_bucket(1) [OF assms(1)] w t
    by (simp add: spec_secondary_bucket_def ULL_of_int_def NDN_NUM_BKT_mask_def)
  show ?thesis using t b1 b2 by (simp add: insert_bkt_1_eq insert_bkt_2_eq)
qed

theorem bucket_derivation_witness:
  "params_ok scenario \<and> (2::int) \<le> 4 \<and> nat 4 \<le> length [97, 47, 98, 47 :: 8 word] \<and>
   url_tag [97, 47, 98, 47] 4 = spec_tag (take (nat 4) [97, 47, 98, 47]) \<and>
   contains_bkt_1 scenario [97, 47, 98, 47] 4 =
     uint (spec_primary_bucket scenario (take (nat 4) [97, 47, 98, 47])) \<and>
   insert_bkt_1 scenario [97, 47, 98, 47] 4 = contains_bkt_1 scenario [97, 47, 98, 47] 4 \<and>
   insert_bkt_2 scenario (insert_bkt_1 scenario [97, 47, 98, 47] 4) (url_tag [97, 47, 98, 47] 4) =
     contains_bkt_2 scenario (contains_bkt_1 scenario [97, 47, 98, 47] 4) (url_tag [97, 47, 98, 47] 4) \<and>
   url_tag [97, 47, 98, 47] 4 = 98 \<and> contains_bkt_1 scenario [97, 47, 98, 47] 4 = 2"
proof -
  have t: "url_tag [97, 47, 98, 47] 4 = 98" by code_simp
  have b: "contains_bkt_1 scenario [97, 47, 98, 47] 4 = 2" by code_simp
  have two: "(2::int) \<le> 4" by simp
  have l: "nat 4 \<le> length [97, 47, 98, 47 :: 8 word]" by simp
  show ?thesis
    using bucket_derivation [OF scenario_ok two l] scenario_ok two l t b by blast
qed

text \<open>
  Claim C8 (offset zero is the empty slot). The table is created with \<open>log_head = 1\<close> and
  every slot zero, and it is well-formed. The lookup never accepts a slot whose offset is 0.
  Every lookup and every insertion that returns keeps the table well-formed, with
  \<open>log_head\<close> at least 1, and a slot that it changes had offset 0 before and has the old log
  head, which is not 0, as its offset after: the insertion takes only a slot of offset 0 as
  empty and never writes a slot of nonzero offset.
\<close>

theorem offset_zero_sentinel:
  "log_head ndn_init_ht = 1 \<and> (\<forall>b i. slot (ht_index ndn_init_ht b) i = 0) \<and>
   (params_ok P \<longrightarrow> wf_ht P ndn_init_ht) \<and>
   (NDN_SLOT_TO_OFFSET s = 0 \<longrightarrow> \<not> slot_matches url len tag ht s) \<and>
   (params_ok P \<and> wf_ht P ht \<and> run_call P c ht = Inr (r, ht') \<longrightarrow>
      wf_ht P ht' \<and> 1 \<le> log_head ht' \<and>
      (\<forall>b\<in>{0..<NDN_NUM_BKT P}. \<forall>i\<in>{0..<8}.
         slot (ht_index ht' b) i \<noteq> slot (ht_index ht b) i \<longrightarrow>
           slot_field ht b i = 0 \<and> slot_field ht' b i = log_head ht \<and> slot_field ht' b i \<noteq> 0))"
proof (intro conjI impI)
  show "log_head ndn_init_ht = 1" by (simp add: ndn_init_ht_def)
  show "\<forall>b i. slot (ht_index ndn_init_ht b) i = 0" by (simp add: ndn_init_ht_def)
  show "wf_ht P ndn_init_ht" if "params_ok P" using that by (rule wf_ndn_init_ht)
  show "\<not> slot_matches url len tag ht s" if "NDN_SLOT_TO_OFFSET s = 0"
    using that by (simp add: slot_matches_def int_of_ULL_zero)
next
  assume a: "params_ok P \<and> wf_ht P ht \<and> run_call P c ht = Inr (r, ht')"
  then have P: "params_ok P" and wf: "wf_ht P ht" and c: "run_call P c ht = Inr (r, ht')"
    by auto
  show wf': "wf_ht P ht'" using P wf c by (rule wf_run_call)
  then show "1 \<le> log_head ht'" by (simp add: wf_ht_occ)
  have "1 \<le> log_head ht" using wf by (simp add: wf_ht_occ)
  then show "\<forall>b\<in>{0..<NDN_NUM_BKT P}. \<forall>i\<in>{0..<8}.
         slot (ht_index ht' b) i \<noteq> slot (ht_index ht b) i \<longrightarrow>
           slot_field ht b i = 0 \<and> slot_field ht' b i = log_head ht \<and> slot_field ht' b i \<noteq> 0"
    using call_slots [OF P wf c] by auto
qed

theorem offset_zero_sentinel_witness:
  "params_ok scenario \<and> wf_ht scenario ndn_init_ht \<and>
   run_call scenario (Insert [97, 47] 2 0 (- 1)) ndn_init_ht = Inr (0, ht_a) \<and>
   NDN_SLOT_TO_OFFSET 0 = 0 \<and> wf_ht scenario ht_a \<and> 1 \<le> log_head ht_a \<and>
   slot_field ndn_init_ht 5 0 = 0 \<and> slot_field ht_a 5 0 = 1"
proof -
  have r: "run_call scenario (Insert [97, 47] 2 0 (- 1)) ndn_init_ht = Inr (0, ht_a)"
    by (simp add: scenario_a)
  have z: "NDN_SLOT_TO_OFFSET 0 = 0" by (simp add: NDN_SLOT_TO_OFFSET_def)
  have f: "slot_field ndn_init_ht 5 0 = 0" "slot_field ht_a 5 0 = 1" by code_simp+
  show ?thesis
    using offset_zero_sentinel [where P = scenario and ht = ndn_init_ht and s = 0
          and c = "Insert [97, 47] 2 0 (- 1)" and r = 0 and ht' = ht_a]
      scenario_ok r z f
    by (simp add: scenario_heads)
qed

text \<open>
  Claim C9 (lookup frame). A lookup with \<open>is_terminal = 0\<close> that returns, for any key and
  whether it finds the key or not, returns the table it was given: bucket index, log and
  \<open>log_head\<close>. A lookup that returns 1, with or without an upgrade, found a record at
  some offset \<open>p\<close> and leaves the bucket index, \<open>log_head\<close> and every byte of the log other
  than the \<open>is_terminal\<close> byte \<open>p + 1\<close> and the \<open>dst_port\<close> byte \<open>p + 2\<close> of that record
  as they were.
\<close>

theorem lookup_frame:
  "(ndn_contains P url len 0 dst_port_id ht = Inr (r, ht1) \<longrightarrow> ht1 = ht) \<and>
   (ndn_contains P url len is_terminal dst_port_id ht = Inr (1, ht2) \<longrightarrow>
      (\<exists>p. lookup_ptr P url len ht = Some p \<and>
           ht_index ht2 = ht_index ht \<and> log_head ht2 = log_head ht \<and>
           (\<forall>a. a \<noteq> p + 1 \<and> a \<noteq> p + 2 \<longrightarrow> ht_log ht2 a = ht_log ht a)))"
  by (auto simp add: ndn_contains_eq upgrade_log_other split: if_splits option.splits)

theorem lookup_frame_witness:
  "ndn_contains scenario [97, 47] 2 0 5 ht_a = Inr (1, ht_a) \<and>
   ndn_contains scenario [97, 47] 2 1 5 ht_a = Inr (1, upgrade 1 5 1 ht_a) \<and>
   ht_log (upgrade 1 5 1 ht_a) 2 = 1 \<and> ht_log ht_a 2 = 0 \<and>
   ht_index (upgrade 1 5 1 ht_a) = ht_index ht_a \<and> log_head (upgrade 1 5 1 ht_a) = 6 \<and>
   ht_log (upgrade 1 5 1 ht_a) 4 = ht_log ht_a 4"
proof -
  have c0: "ndn_contains scenario [97, 47] 2 0 5 ht_a = Inr (1, ht_a)"
    by (simp add: ndn_contains_eq scenario_find_a)
  have c1: "ndn_contains scenario [97, 47] 2 1 5 ht_a = Inr (1, upgrade 1 5 1 ht_a)"
    by (simp add: ndn_contains_eq scenario_find_a)
  have u: "ht_log (upgrade 1 5 1 ht_a) 2 = 1" by (simp add: upgrade_def scenario_bytes)
  show ?thesis
    using lookup_frame [of scenario "[97, 47]" 2 5 ht_a 1 ht_a 1 "upgrade 1 5 1 ht_a"] c0 c1 u
    by (simp add: scenario_find_a scenario_bytes scenario_heads)
qed

text \<open>
  Claim C10 (failure paths change nothing). When \<open>ndn_ht_insert\<close> returns -1 the table is
  the one it was given: no slot, no byte of the log and not \<open>log_head\<close> has changed. When
  \<open>ndn_contains\<close> returns 0 the table is the one it was given, also when an upgrade was
  asked for.
\<close>

theorem failure_leaves_table:
  "(ndn_ht_insert P url len is_terminal dst_port_id ht = Inr (- 1, ht') \<longrightarrow> ht' = ht) \<and>
   (ndn_contains P url len is_terminal dst_port_id ht = Inr (0, ht') \<longrightarrow> ht' = ht)"
  by (auto simp add: ndn_contains_eq ndn_ht_insert_eq split: if_splits option.splits)

theorem failure_leaves_table_witness:
  "ndn_ht_insert one_bucket [105, 47] 2 1 5 full_ht = Inr (- 1, full_ht) \<and>
   ndn_contains one_bucket [105, 47] 2 1 5 full_ht = Inr (0, full_ht) \<and> log_head full_ht = 41"
proof -
  have c: "ndn_contains one_bucket [105, 47] 2 1 5 full_ht = Inr (0, full_ht)"
    by (simp add: ndn_contains_eq full_ht_absent)
  show ?thesis
    using failure_leaves_table [of one_bucket "[105, 47]" 2 1 5 full_ht full_ht] full_ht_insert c
    by (simp add: full_ht_head)
qed

end
